theory Spec2Isabelle
  imports Main
begin

section \<open>qParser: string utilities\<close>

text \<open>
  Python strings are modelled as \<open>string\<close> (a list of characters), Python integers as
  \<open>int\<close>.  Exceptions and \<open>exit()\<close> are values of the type \<open>error\<close>; a function that
  can raise returns \<open>error + 'a\<close>.
\<close>

datatype error =
    IndexError      \<comment> \<open>subscript out of range\<close>
  | TypeError       \<comment> \<open>unpacking \<open>None\<close>, or a call with unexpected keyword arguments\<close>
  | AttributeError  \<comment> \<open>attribute read on an object that never got it\<close>
  | SystemExit      \<comment> \<open>\<open>exit()\<close>\<close>

text \<open>\<open>pop(inputStr)\<close>: first character and tail.\<close>

definition pop :: "string \<Rightarrow> string \<times> string" where
  "pop inputStr =
     (if inputStr = [] then ([], [])
      else if length inputStr = 1 then (inputStr, [])
      else ([inputStr ! 0], drop 1 inputStr))"

text \<open>\<open>split(inputStr, n)\<close>: the slices \<open>inputStr[0:n]\<close> and \<open>inputStr[n:]\<close>, guarded.\<close>

definition split :: "string \<Rightarrow> int \<Rightarrow> string \<times> string" where
  "split inputStr n =
     (if inputStr = [] then ([], [])
      else if n > int (length inputStr) then (inputStr, [])
      else if n \<le> 0 then ([], inputStr)
      else (take (nat n) inputStr, drop (nat n) inputStr))"

text \<open>
  \<open>isAlpha\<close> and \<open>isDigit\<close> read the first character of their argument; every call in
  the source passes a single character, so the model takes a \<open>char\<close>.
\<close>

definition isAlpha :: "char \<Rightarrow> bool" where
  "isAlpha c =
     (let testAlpha = False;
          testAlpha = (testAlpha \<or> ((of_char c :: nat) \<ge> of_char (CHR ''A'') \<and> (of_char c :: nat) \<le> of_char (CHR ''Z'')));
          testAlpha = (testAlpha \<or> ((of_char c :: nat) \<ge> of_char (CHR ''a'') \<and> (of_char c :: nat) \<le> of_char (CHR ''z'')))
      in testAlpha)"

definition isDigit :: "char \<Rightarrow> bool" where
  "isDigit c = ((of_char c :: nat) \<ge> of_char (CHR ''0'') \<and> (of_char c :: nat) \<le> of_char (CHR ''9''))"

text \<open>
  \<open>isNumber\<close>: the loop over the characters carries the flag \<open>gotDigit\<close>, which is set
  by the first dot.
\<close>

fun isNumber_loop :: "bool \<Rightarrow> string \<Rightarrow> bool" where
  "isNumber_loop gotDigit [] = True"
| "isNumber_loop gotDigit (c # cs) =
     (if c = CHR ''.'' then (if gotDigit then False else isNumber_loop True cs)
      else if \<not> isDigit c then False
      else isNumber_loop gotDigit cs)"

definition isNumber :: "string \<Rightarrow> bool" where
  "isNumber inputStr =
     (if inputStr \<in> set [[], ''.''] then False else isNumber_loop False inputStr)"

text \<open>
  \<open>checkVariableSyntax\<close>: reserved names are refused first; \<open>inputStr[0]\<close> raises on the
  empty string.
\<close>

definition CONSTANTS_names :: "string list" where
  \<comment> \<open>\<open>[x["name"] for x in Token.CONSTANTS]\<close>\<close>
  "CONSTANTS_names = [''pi'', ''i'', ''eps'', ''inf'']"

definition FUNCTIONS :: "(string \<times> int) list" where
  \<comment> \<open>name and \<open>nArgs\<close>\<close>
  "FUNCTIONS =
     [(''id'', 1), (''sin'', 1), (''cos'', 1), (''tan'', 1), (''exp'', 1), (''ln'', 1),
      (''log10'', 1), (''logN'', 2), (''abs'', 1), (''sqrt'', 1), (''floor'', 1),
      (''ceil'', 1), (''round'', 1), (''Q'', 2), (''sinc'', 1)]"

definition INFIX_OPS :: "(string \<times> int) list" where
  \<comment> \<open>name and priority\<close>
  "INFIX_OPS = [(''+'', 1), (''-'', 1), (''*'', 2), (''/'', 2), (''//'', 2), (''^'', 3)]"

definition reservedNames :: "string list" where
  "reservedNames = CONSTANTS_names @ map fst FUNCTIONS"

definition checkVariableSyntax :: "string \<Rightarrow> error + bool" where
  "checkVariableSyntax inputStr =
     (if inputStr \<in> set reservedNames then Inr False
      else if inputStr = [] then Inl IndexError
      else if \<not> (isAlpha (inputStr ! 0) \<or> inputStr ! 0 = CHR ''_'') then Inr False
      else Inr (list_all (\<lambda>char. isAlpha char \<or> isDigit char \<or> char = CHR ''_'') inputStr))"

definition isBlank :: "string \<Rightarrow> bool" where
  \<comment> \<open>prints TODO and returns \<open>None\<close>, which a condition reads as false\<close>
  "isBlank inputStr = False"

section \<open>qParser: tokens\<close>

text \<open>
  A token has a type tag and a name; the tags are Python strings and are compared as
  strings, so they are strings here too.
\<close>

record token =
  type :: string
  name :: string

abbreviation tk :: "string \<Rightarrow> string \<Rightarrow> token" where
  "tk ty nm \<equiv> \<lparr>type = ty, name = nm\<rparr>"

text \<open>
  \<open>Token(name)\<close>: the type is inferred from the name, in the order of the source.  In the
  last branch the constructor prints an error and leaves the object without \<open>type\<close> and
  \<open>name\<close>; the model stops there with \<open>AttributeError\<close>, which is what the first read
  of either attribute raises.
\<close>

definition Token :: "string \<Rightarrow> error + token" where
  "Token nm =
     (if nm \<in> set CONSTANTS_names then Inr \<lparr>type = ''CONSTANT'', name = nm\<rparr>
      else if nm \<in> set (map fst FUNCTIONS) then Inr \<lparr>type = ''FUNCTION'', name = nm\<rparr>
      else if nm \<in> set (map fst INFIX_OPS) then Inr \<lparr>type = ''INFIX'', name = nm\<rparr>
      else case checkVariableSyntax nm of
        Inl e \<Rightarrow> Inl e
      | Inr True \<Rightarrow> Inr \<lparr>type = ''VAR'', name = nm\<rparr>
      | Inr False \<Rightarrow>
         (if nm = ''('' then Inr \<lparr>type = ''BRKT_OPEN'', name = nm\<rparr>
          else if nm = '')'' then Inr \<lparr>type = ''BRKT_CLOSE'', name = nm\<rparr>
          else if nm = '','' then Inr \<lparr>type = ''COMMA'', name = nm\<rparr>
          else if isNumber nm then Inr \<lparr>type = ''NUMBER'', name = nm\<rparr>
          else if isBlank nm then Inr \<lparr>type = ''SPACE'', name = nm\<rparr>
          else Inl AttributeError))"

section \<open>qParser: the lexer\<close>

record QParser =
  input :: string
  variables :: "string list"

text \<open>Every method starts by choosing its argument, or \<open>self.input\<close> when it is empty.\<close>

definition inputStr_of :: "QParser \<Rightarrow> string \<Rightarrow> string" where
  "inputStr_of self inp = (if length inp > 0 then inp else input self)"

text \<open>
  \<open>consumeSpace\<close>: returns at the first character that is not a space; when there is
  none the method falls off its end and returns \<open>None\<close>.
\<close>

fun consumeSpace_loop :: "string \<Rightarrow> nat list \<Rightarrow> (string \<times> string) option" where
  "consumeSpace_loop inputStr [] = None"
| "consumeSpace_loop inputStr (n # ns) =
     (if inputStr ! n \<noteq> CHR '' '' then Some (split inputStr (int n))
      else consumeSpace_loop inputStr ns)"

definition consumeSpace :: "QParser \<Rightarrow> string \<Rightarrow> (string \<times> string) option" where
  "consumeSpace self inp =
     (let inputStr = inputStr_of self inp
      in consumeSpace_loop inputStr [0 ..< length inputStr])"

text \<open>\<open>consumeConst\<close>: the loop over \<open>range(1, len(inputStr)+1)\<close>.\<close>

fun consumeConst_loop :: "string \<Rightarrow> nat list \<Rightarrow> string \<times> string" where
  "consumeConst_loop inputStr [] = ([], inputStr)"
| "consumeConst_loop inputStr (n # ns) =
     (let (head, tail) = split inputStr (int n) in
      if head \<in> set CONSTANTS_names then
        (if n = length inputStr then (head, [])
         else
           (let nextChar = tail ! 0 in
            if nextChar = CHR ''_'' then ([], inputStr)
            else if isAlpha nextChar then consumeConst_loop inputStr ns
            else (head, tail)))
      else consumeConst_loop inputStr ns)"

definition consumeConst :: "QParser \<Rightarrow> string \<Rightarrow> string \<times> string" where
  "consumeConst self inp =
     (let inputStr = inputStr_of self inp
      in consumeConst_loop inputStr [1 ..< length inputStr + 1])"

text \<open>
  \<open>consumeNumber\<close>.  \<open>str.isdigit\<close> also accepts the superscript digits; among the
  characters of a \<open>string\<close> these are the code points B2, B3 and B9.
\<close>

definition str_isdigit :: "char \<Rightarrow> bool" where
  "str_isdigit c = (isDigit c \<or> (of_char c :: nat) \<in> {178, 179, 185})"

fun consumeNumber_loop :: "string \<Rightarrow> nat list \<Rightarrow> nat \<Rightarrow> nat" where
  "consumeNumber_loop inputStr [] nMax = nMax"
| "consumeNumber_loop inputStr (n # ns) nMax =
     (let (head, _) = split inputStr (int n) in
      if isNumber head then consumeNumber_loop inputStr ns n
      else nMax)"

definition consumeNumber :: "QParser \<Rightarrow> string \<Rightarrow> error + string \<times> string" where
  "consumeNumber self inp =
     (let inputStr = inputStr_of self inp in
      if inputStr = [] then Inl IndexError
      else if \<not> (str_isdigit (inputStr ! 0) \<or> inputStr ! 0 = CHR ''.'') then Inr ([], inputStr)
      else
        (let nMax = consumeNumber_loop inputStr [1 ..< length inputStr + 1] 0
         in Inr (split inputStr (int nMax))))"

text \<open>\<open>consumeFunc\<close>: the longest prefix that is a function name followed by a bracket.\<close>

fun nMax_loop :: "string list \<Rightarrow> string \<Rightarrow> nat list \<Rightarrow> nat \<Rightarrow> nat" where
  "nMax_loop words inputStr [] nMax = nMax"
| "nMax_loop words inputStr (n # ns) nMax =
     (let (head, _) = split inputStr (int n) in
      if head \<in> set words then nMax_loop words inputStr ns n
      else nMax_loop words inputStr ns nMax)"

definition consumeFunc :: "QParser \<Rightarrow> string \<Rightarrow> string \<times> string" where
  "consumeFunc self inp =
     (let inputStr = inputStr_of self inp;
          functionsExt = map (\<lambda>f. fst f @ ''('') FUNCTIONS;
          nMax = nMax_loop functionsExt inputStr [1 ..< length inputStr + 1] 0;
          (tmpHead, tmpTail) = split inputStr (int nMax)
      in (butlast tmpHead, tmpTail))"

text \<open>
  \<open>consumeVar\<close>.  \<open>output\<close> starts as \<open>(-1, "")\<close> (here \<open>None\<close>) and is assigned when
  the loop breaks; the loop runs at least once and breaks on the last index at the latest.
  Were it not assigned, the method would return the initial pair, whose first component
  is not a string: the model gives \<open>TypeError\<close> there.
\<close>

fun consumeVar_loop :: "QParser \<Rightarrow> string \<Rightarrow> nat list \<Rightarrow> error + (string \<times> string) option" where
  "consumeVar_loop self inputStr [] = Inr None"
| "consumeVar_loop self inputStr (n # ns) =
     (let (head, tail) = split inputStr (int n) in
      if n = length inputStr then Inr (Some (head, []))
      else
        (let nextChar = tail ! 0 in
         if isAlpha nextChar \<or> nextChar = CHR ''_'' then consumeVar_loop self inputStr ns
         else if isDigit nextChar then
           (case consumeNumber self tail of
              Inl e \<Rightarrow> Inl e
            | Inr (nbr, _) \<Rightarrow>
                if CHR ''.'' \<in> set nbr then Inr (Some (head, tail))
                else consumeVar_loop self inputStr ns)
         else Inr (Some (head, tail))))"

definition consumeVar :: "QParser \<Rightarrow> string \<Rightarrow> error + string \<times> string" where
  "consumeVar self inp =
     (let inputStr = inputStr_of self inp in
      if inputStr = [] then Inl IndexError
      else if \<not> (isAlpha (inputStr ! 0) \<or> inputStr ! 0 = CHR ''_'') then Inr ([], inputStr)
      else
        (case consumeVar_loop self inputStr [1 ..< length inputStr + 1] of
           Inl e \<Rightarrow> Inl e
         | Inr None \<Rightarrow> Inl TypeError
         | Inr (Some (var, rest)) \<Rightarrow>
             if var \<notin> set reservedNames then Inr (var, rest)
             else Inr ([], inputStr)))"

definition consumeInfix :: "QParser \<Rightarrow> string \<Rightarrow> string \<times> string" where
  "consumeInfix self inp =
     (let inputStr = inputStr_of self inp;
          infixOpsList = map fst INFIX_OPS;
          nMax = nMax_loop infixOpsList inputStr [1 ..< length inputStr + 1] 0
      in split inputStr (int nMax))"

text \<open>
  \<open>tokenize\<close>: the \<open>while\<close> loop on the remaining input.  Nothing in the source bounds
  the number of iterations, so the loop is a partial function: \<open>None\<close> is a run that never
  returns.  Unpacking the \<open>None\<close> of \<open>consumeSpace\<close> raises \<open>TypeError\<close>.
\<close>

partial_function (option) tokenize_loop ::
    "QParser \<Rightarrow> string \<Rightarrow> token list \<Rightarrow> (error + token list) option" where
  "tokenize_loop self inputStr tokenList =
     (if length inputStr > 0 then
        (case consumeSpace self inputStr of
           None \<Rightarrow> Some (Inl TypeError)
         | Some (_, inputStr1) \<Rightarrow>
            if length inputStr1 = 0 then Some (Inr tokenList)
            else
              (case consumeNumber self inputStr1 of
                 Inl e \<Rightarrow> Some (Inl e)
               | Inr (number, tailNumber) \<Rightarrow>
              (case consumeConst self inputStr1 of (constant, tailConstant) \<Rightarrow>
              (case consumeFunc self inputStr1 of (function', tailFunction) \<Rightarrow>
              (case consumeVar self inputStr1 of
                 Inl e \<Rightarrow> Some (Inl e)
               | Inr (variable, tailVariable) \<Rightarrow>
              (case consumeInfix self inputStr1 of (infix', tailInfix) \<Rightarrow>
                 if number \<noteq> [] then
                   (case Token number of Inl e \<Rightarrow> Some (Inl e)
                    | Inr t \<Rightarrow> tokenize_loop self tailNumber (tokenList @ [t]))
                 else if constant \<noteq> [] then
                   (case Token constant of Inl e \<Rightarrow> Some (Inl e)
                    | Inr t \<Rightarrow> tokenize_loop self tailConstant (tokenList @ [t]))
                 else if function' \<noteq> [] then
                   (case Token function' of Inl e \<Rightarrow> Some (Inl e)
                    | Inr t \<Rightarrow>
                       (case Token ''('' of Inl e \<Rightarrow> Some (Inl e)
                        | Inr b \<Rightarrow> tokenize_loop self tailFunction (tokenList @ [t, b])))
                 else if variable \<noteq> [] then
                   (case Token variable of Inl e \<Rightarrow> Some (Inl e)
                    | Inr t \<Rightarrow> tokenize_loop self tailVariable (tokenList @ [t]))
                 else if infix' \<noteq> [] then
                   (case Token infix' of Inl e \<Rightarrow> Some (Inl e)
                    | Inr t \<Rightarrow> tokenize_loop self tailInfix (tokenList @ [t]))
                 else
                   (case pop inputStr1 of (head, tail) \<Rightarrow>
                      if head = ''('' \<or> head = '')'' \<or> head = '','' then
                        (case Token head of Inl e \<Rightarrow> Some (Inl e)
                         | Inr t \<Rightarrow> tokenize_loop self tail (tokenList @ [t]))
                      else tokenize_loop self inputStr1 tokenList)))))))
      else Some (Inr tokenList))"

declare tokenize_loop.simps [code]

definition tokenize :: "QParser \<Rightarrow> string \<Rightarrow> (error + token list) option" where
  "tokenize self inp = tokenize_loop self (inputStr_of self inp) []"

section \<open>qParser: the text of a token list\<close>

text \<open>
  The characters the lexer keeps, the characters of an identifier, and the text of a
  token list: the names of its tokens, one after the other.
  \<open>literalText_without_bracket\<close> is the same text with the open bracket that follows a
  function token left out.  \<open>emptyParser\<close> is the object \<open>QParser()\<close>: no input, no
  variable.
\<close>

abbreviation nonspace :: "char \<Rightarrow> bool" where
  "nonspace c \<equiv> c \<noteq> CHR '' ''"

abbreviation idchar :: "char \<Rightarrow> bool" where
  "idchar c \<equiv> isAlpha c \<or> isDigit c \<or> c = CHR ''_''"

definition wholeWord :: "string \<Rightarrow> string \<Rightarrow> bool" where
  \<comment> \<open>\<open>x\<close> starts \<open>s\<close> and no letter follows it there\<close>
  "wholeWord s x =
     (take (length x) s = x \<and> (length s = length x \<or> \<not> isAlpha (s ! length x)))"

definition literalText :: "token list \<Rightarrow> string" where
  "literalText tokenList = concat (map name tokenList)"

fun literalText_without_bracket :: "token list \<Rightarrow> string" where
  "literalText_without_bracket (t # b # ts) =
     (if type t = ''FUNCTION'' \<and> name b = ''(''
      then name t @ literalText_without_bracket ts
      else name t @ literalText_without_bracket (b # ts))"
| "literalText_without_bracket [t] = name t"
| "literalText_without_bracket [] = []"

definition emptyParser :: QParser where
  "emptyParser = \<lparr>input = [], variables = []\<rparr>"

section \<open>qParser: implicit multiplications\<close>

text \<open>
  \<open>expandMult\<close>: for each adjacent pair the first token is appended, then a
  multiplication token when the pair of type tags is one of the cases of the \<open>match\<close>;
  after the loop the last token is appended.  The tags of the cases are those written in
  the source.
\<close>

definition multCases :: "(string \<times> string) list" where
  "multCases =
     [(''CONSTANT'', ''BRKT_OPEN''), (''VAR'', ''BRKT_OPEN''), (''VAR'', ''NUMBER''),
      (''BRKT_CLOSE'', ''CONST''), (''BRKT_CLOSE'', ''FUNCTION''), (''BRKT_CLOSE'', ''VAR''),
      (''BRKT_CLOSE'', ''BRKT_OPEN''), (''BRKT_CLOSE'', ''NUMBER''), (''NUMBER'', ''CONST''),
      (''NUMBER'', ''FUNCTION''), (''NUMBER'', ''VAR''), (''NUMBER'', ''BRKT_OPEN'')]"

definition multToken :: token where
  \<comment> \<open>\<open>Token("*")\<close>\<close>
  "multToken = \<lparr>type = ''INFIX'', name = ''*''\<rparr>"

fun expandMult_loop :: "token list \<Rightarrow> token list" where
  "expandMult_loop (tokA # tokB # rest) =
     (tokA # (if (type tokA, type tokB) \<in> set multCases then [multToken] else []))
       @ expandMult_loop (tokB # rest)"
| "expandMult_loop [tokB] = [tokB]"
| "expandMult_loop [] = []"

definition expandMult :: "token list \<Rightarrow> token list" where
  "expandMult inp = (if length inp \<le> 1 then inp else expandMult_loop inp)"

section \<open>binary: nodes of a stack\<close>

text \<open>
  The stack of a \<open>Binary\<close> holds tokens and \<open>Macroleaf\<close> objects.  A \<open>Macroleaf\<close> has a
  function name and one \<open>Binary\<close> per argument; an argument is represented by its stack.
  The class \<open>Macroleaf\<close> (module \<open>macroleaf\<close>) and the token class of module \<open>symbols\<close>
  are not among the sources: tokens are those of \<open>qParser\<close>, and what \<open>binary.py\<close> uses of
  the two classes is modelled below, each part marked.
\<close>

datatype node = Tok token | Macroleaf string "node list list"

type_synonym 'a outcome = "(error + 'a) option"
  \<comment> \<open>\<open>None\<close>: the call never returns; \<open>Some (Inl e)\<close>: it raises or exits\<close>

definition ntype :: "node \<Rightarrow> string" where
  \<comment> \<open>\<open>elt.type\<close>; a \<open>Macroleaf\<close> answers \<open>"MACRO"\<close> (the tag \<open>binary.py\<close> tests for)\<close>
  "ntype elt = (case elt of Tok t \<Rightarrow> type t | Macroleaf f as \<Rightarrow> ''MACRO'')"

definition nname :: "node \<Rightarrow> string" where
  \<comment> \<open>\<open>elt.name\<close>; the source reads it on infix tokens only\<close>
  "nname elt = (case elt of Tok t \<Rightarrow> name t | Macroleaf f as \<Rightarrow> f)"

definition priority :: "node \<Rightarrow> int" where
  \<comment> \<open>Modelled from the spec: the attribute \<open>priority\<close> of a token of module \<open>symbols\<close>,
      which is not among the sources.  An infix token carries the priority that the
      registry \<open>INFIX_OPS\<close> gives its symbol; the source reads it on infix tokens only.\<close>
  "priority elt = (case map_of INFIX_OPS (nname elt) of Some p \<Rightarrow> p | None \<Rightarrow> 0)"

definition newMacroleaf :: "string \<Rightarrow> node list \<Rightarrow> node" where
  \<comment> \<open>Modelled from the spec: \<open>macroleaf.Macroleaf(function, tokenList)\<close> called on nodes
      taken from a stack, \<open>MacroNode("opp", [operand])\<close> and
      \<open>MacroNode("id", [sub-Binary built from that run])\<close>: one argument, holding the
      given nodes.\<close>
  "newMacroleaf f tokenList = Macroleaf f [tokenList]"

definition zeroToken :: token where
  \<comment> \<open>\<open>symbols.Token("0")\<close>\<close>
  "zeroToken = \<lparr>type = ''NUMBER'', name = ''0''\<rparr>"

fun forEach :: "('a \<Rightarrow> 'a outcome) \<Rightarrow> 'a list \<Rightarrow> 'a list outcome" where
  "forEach f [] = Some (Inr [])"
| "forEach f (x # xs) =
     (case f x of
        None \<Rightarrow> None
      | Some (Inl e) \<Rightarrow> Some (Inl e)
      | Some (Inr y) \<Rightarrow>
         (case forEach f xs of
            None \<Rightarrow> None
          | Some (Inl e) \<Rightarrow> Some (Inl e)
          | Some (Inr ys) \<Rightarrow> Some (Inr (y # ys))))"

lemma forEach_cong [fundef_cong]:
  "xs = ys \<Longrightarrow> (\<And>x. x \<in> set ys \<Longrightarrow> f x = g x) \<Longrightarrow> forEach f xs = forEach g ys"
  by (induction ys arbitrary: xs) (auto split: option.splits sum.splits)

lemma size_elt_less: "x \<in> set xs \<Longrightarrow> size x < size_list size xs"
  by (induction xs) auto

lemma size_arg_less: "a \<in> set as \<Longrightarrow> size_list size a < Suc (size_list (size_list size) as)"
  by (induction as) auto

section \<open>binary: building the stack\<close>

text \<open>
  \<open>_buildStack\<close> appends to \<open>self.stack\<close> and sets \<open>self.remainder\<close>; the model passes both
  along.  The constructor of \<open>Macroleaf\<close> on a raw token list is the parameter
  \<open>mkMacroleaf\<close>, which gives the new node and its remainder.  The recursion continues on
  that remainder, so the function is partial.  Errors are only printed: the method
  returns with what it has.
\<close>

partial_function (option) buildStack ::
    "(string \<Rightarrow> node list \<Rightarrow> error + node \<times> node list) \<Rightarrow> node list \<Rightarrow> node list \<Rightarrow> node list
      \<Rightarrow> (node list \<times> node list) outcome" where
  "buildStack mkMacroleaf tokenList stack remainder =
     (if length tokenList \<ge> 2 then
        (let currToken = tokenList ! 0; tail = drop 1 tokenList in
         if ntype currToken \<in> set [''CONSTANT'', ''VAR'', ''NUMBER'', ''INFIX'', ''MACRO''] then
           buildStack mkMacroleaf tail (stack @ [currToken]) remainder
         else if ntype currToken = ''FUNCTION'' then
           (case mkMacroleaf (nname currToken) (drop 1 tail) of
              Inl e \<Rightarrow> Some (Inl e)
            | Inr (M, Mremainder) \<Rightarrow> buildStack mkMacroleaf Mremainder (stack @ [M]) remainder)
         else if ntype currToken = ''BRKT_OPEN'' then
           (case mkMacroleaf ''id'' tail of
              Inl e \<Rightarrow> Some (Inl e)
            | Inr (M, Mremainder) \<Rightarrow> buildStack mkMacroleaf Mremainder (stack @ [M]) remainder)
         else if ntype currToken = ''COMMA'' then Some (Inr (stack, tail))
         else if ntype currToken = ''BRKT_CLOSE'' then Some (Inr (stack, tail))
         else Some (Inr (stack, remainder)))
      else if length tokenList = 1 then
        (let currToken = tokenList ! 0 in
         if ntype currToken \<in> set [''CONSTANT'', ''VAR'', ''NUMBER'', ''MACRO''] then
           Some (Inr (stack @ [currToken], []))
         else if ntype currToken = ''BRKT_CLOSE'' then Some (Inr (stack, []))
         else Some (Inr (stack, remainder)))
      else Some (Inr (stack, remainder)))"

declare buildStack.simps [code]

section \<open>binary: balancing the minus signs\<close>

text \<open>
  \<open>_explicitZeros\<close>: step 1 on the own stack, step 2 on every \<open>Macroleaf\<close> of the stack.
  \<open>Macroleaf._explicitZeros\<close> is modelled from the spec: the pass is applied to every
  argument of the node.
\<close>

function explicitZeros :: "node list \<Rightarrow> node list" where
  "explicitZeros stack =
     (let nNodes = length stack;
          stack1 =
            (if nNodes \<ge> 2 \<and> ntype (stack ! 0) = ''INFIX'' \<and> nname (stack ! 0) = ''-''
             then [Tok zeroToken] @ stack else stack)
      in map (\<lambda>elt. case elt of
                      Macroleaf f as \<Rightarrow> Macroleaf f (map explicitZeros as)
                    | Tok t \<Rightarrow> elt) stack1)"
  by pat_completeness auto
termination
proof (relation "measure (size_list size)", goal_cases)
  case 1
  show ?case by simp
next
  case (2 stack nNodes stack1 elt f as a)
  have "elt \<in> set stack"
    using 2 by (auto split: if_splits)
  hence "size elt < size_list size stack"
    by (rule size_elt_less)
  moreover have "size_list size a < size elt"
    using 2 size_arg_less [of a as] by simp
  ultimately show ?case by simp
qed

declare explicitZeros.simps [simp del]

text \<open>
  \<open>_minusAsOpp\<close>, the \<open>while\<close> loop of the branch for four nodes or more.  The counter
  \<open>n\<close> moves only in some branches, so the loop is a partial function.
\<close>

partial_function (option) minusAsOpp_loop ::
    "node list \<Rightarrow> nat \<Rightarrow> node list \<Rightarrow> node list outcome" where
  "minusAsOpp_loop stack n newStack =
     (let nElements = length stack in
      if int n \<le> int nElements - 2 then
        (let eltA = stack ! n; eltB = stack ! (n + 1) in
         if ntype eltA = ''INFIX'' \<and> ntype eltB = ''INFIX'' then
           (if nname eltA = ''^'' \<and> nname eltB = ''-'' then
              (if int n + 2 > int nElements - 1 then Some (Inl IndexError)
               else
                 (let M = newMacroleaf ''opp'' [stack ! (n + 2)]
                  in minusAsOpp_loop stack (n + 3) (newStack @ [eltA, M])))
            else minusAsOpp_loop stack n newStack)
         else if ntype eltA = ''INFIX'' \<and> ntype eltB = ''INFIX'' then
           (if ntype eltB = ''-'' then
              (if int n + 2 > int nElements - 1 then Some (Inl SystemExit)
               else
                 (let M = newMacroleaf ''opp'' [stack ! (n + 2)]
                  in minusAsOpp_loop stack (n + 3) (newStack @ [eltA, M])))
            else Some (Inl SystemExit))
         else if int n = int nElements - 2 then
           minusAsOpp_loop stack (n + 1) (newStack @ [eltA, eltB])
         else minusAsOpp_loop stack (n + 1) (newStack @ [eltA]))
      else Some (Inr newStack))"

declare minusAsOpp_loop.simps [code]

text \<open>
  \<open>_minusAsOpp\<close>: the loop when the stack has four nodes or more, otherwise the pass on
  every \<open>Macroleaf\<close> of the stack.  \<open>Macroleaf._minusAsOpp\<close> is modelled from the spec: the
  pass is applied to every argument of the node.
\<close>

function minusAsOpp :: "node list \<Rightarrow> node list outcome" where
  "minusAsOpp stack =
     (let nElements = length stack in
      if nElements \<ge> 4 then minusAsOpp_loop stack 0 []
      else
        forEach (\<lambda>elt. case elt of
                   Macroleaf f as \<Rightarrow>
                     (case forEach minusAsOpp as of
                        None \<Rightarrow> None
                      | Some (Inl e) \<Rightarrow> Some (Inl e)
                      | Some (Inr as') \<Rightarrow> Some (Inr (Macroleaf f as')))
                 | Tok t \<Rightarrow> Some (Inr elt)) stack)"
  by pat_completeness auto
termination
proof (relation "measure (size_list size)", goal_cases)
  case 1
  show ?case by simp
next
  case (2 stack nElements elt f as a)
  have "elt \<in> set stack"
    using 2 by simp
  hence "size elt < size_list size stack"
    by (rule size_elt_less)
  moreover have "size_list size a < size elt"
    using 2 size_arg_less [of a as] by simp
  ultimately show ?case by simp
qed

declare minusAsOpp.simps [simp del]

definition balanceMinus :: "node list \<Rightarrow> node list outcome" where
  "balanceMinus stack = minusAsOpp (explicitZeros stack)"

text \<open>
  The constructor \<open>Binary(tokenList)\<close>: the stack is built, then balanced.  The result is
  the pair of \<open>stack\<close> and \<open>remainder\<close>.
\<close>

definition Binary ::
    "(string \<Rightarrow> node list \<Rightarrow> error + node \<times> node list) \<Rightarrow> node list
      \<Rightarrow> (node list \<times> node list) outcome" where
  "Binary mkMacroleaf tokenList =
     (if length tokenList \<ge> 1 then
        (case buildStack mkMacroleaf tokenList [] [] of
           None \<Rightarrow> None
         | Some (Inl e) \<Rightarrow> Some (Inl e)
         | Some (Inr (stack, remainder)) \<Rightarrow>
            (case balanceMinus stack of
               None \<Rightarrow> None
             | Some (Inl e) \<Rightarrow> Some (Inl e)
             | Some (Inr stack') \<Rightarrow> Some (Inr (stack', remainder))))
      else Some (Inr ([], [])))"

section \<open>binary: what the balancing passes leave behind\<close>



function everyLevel :: "(node list \<Rightarrow> bool) \<Rightarrow> node list \<Rightarrow> bool" where
  "everyLevel P stack =
     (P stack \<and>
      (\<forall>elt \<in> set stack. case elt of
          Macroleaf f as \<Rightarrow> (\<forall>a \<in> set as. everyLevel P a)
        | Tok t \<Rightarrow> True))"
  by pat_completeness auto
termination
proof (relation "measure (\<lambda>(P, stack). size_list size stack)", goal_cases)
  case 1
  show ?case by simp
next
  case (2 P stack elt f as a)
  have "size elt < size_list size stack"
    using 2 by (intro size_elt_less) simp
  moreover have "size_list size a < size elt"
    using 2 size_arg_less [of a as] by simp
  ultimately show ?case by simp
qed

declare everyLevel.simps [simp del]



section \<open>binary: nesting by priority\<close>

text \<open>\<open>_getPriorityRange\<close>: the smallest and the largest priority among the infix nodes.\<close>

fun getPriorityRange_loop :: "node list \<Rightarrow> int \<times> int \<Rightarrow> int \<times> int" where
  "getPriorityRange_loop [] (minPriority, maxPriority) = (minPriority, maxPriority)"
| "getPriorityRange_loop (element # rest) (minPriority, maxPriority) =
     (if ntype element = ''INFIX'' then
        (let maxPriority1 = (if priority element > maxPriority then priority element else maxPriority);
             minPriority1 = (if priority element < minPriority then priority element else minPriority)
         in getPriorityRange_loop rest (minPriority1, maxPriority1))
      else getPriorityRange_loop rest (minPriority, maxPriority))"

definition getPriorityRange :: "node list \<Rightarrow> int \<times> int" where
  "getPriorityRange elementList = getPriorityRange_loop elementList (100, -1)"

text \<open>
  \<open>_splitOp\<close>, step 1: the side array \<open>isTopElement\<close>.  The index \<open>n-1\<close> of a node at index
  0 is Python's \<open>-1\<close>, the last cell; the index \<open>n+1\<close> of the last node is out of range.
\<close>

fun splitOp_mark :: "int \<Rightarrow> (nat \<times> node) list \<Rightarrow> bool list \<Rightarrow> error + bool list" where
  "splitOp_mark prio [] isTopElement = Inr isTopElement"
| "splitOp_mark prio ((n, element) # rest) isTopElement =
     (if ntype element = ''INFIX'' then
        (if priority element > prio then splitOp_mark prio rest isTopElement
         else if priority element = prio then
           (let isTop1 = isTopElement[(if n = 0 then length isTopElement - 1 else n - 1) := True];
                isTop2 = isTop1[n := True]
            in if n + 1 < length isTop2 then splitOp_mark prio rest (isTop2[n + 1 := True])
               else Inl IndexError)
         else splitOp_mark prio rest isTopElement)
      else splitOp_mark prio rest isTopElement)"

text \<open>\<open>_splitOp\<close>, step 2: the nodes are cut where the side array changes.\<close>

fun splitOp_cut ::
    "node list \<Rightarrow> bool list \<Rightarrow> nat list \<Rightarrow> node list \<Rightarrow> node list list \<Rightarrow> bool list
      \<Rightarrow> node list list \<times> bool list" where
  "splitOp_cut tokenList isTopElement [] tmp chunksOut chunkIsTop = (chunksOut, chunkIsTop)"
| "splitOp_cut tokenList isTopElement (n # ns) tmp chunksOut chunkIsTop =
     (let nElements = length tokenList in
      if n = 0 then splitOp_cut tokenList isTopElement ns [tokenList ! 0] chunksOut chunkIsTop
      else if isTopElement ! (n - 1) \<noteq> isTopElement ! n then
        (if n = nElements - 1 then
           splitOp_cut tokenList isTopElement ns tmp
             (chunksOut @ [tmp] @ [[tokenList ! n]])
             (chunkIsTop @ [isTopElement ! (n - 1)] @ [isTopElement ! n])
         else
           splitOp_cut tokenList isTopElement ns [tokenList ! n]
             (chunksOut @ [tmp]) (chunkIsTop @ [isTopElement ! (n - 1)]))
      else
        (if n = nElements - 1 then
           splitOp_cut tokenList isTopElement ns (tmp @ [tokenList ! n])
             (chunksOut @ [tmp @ [tokenList ! n]]) (chunkIsTop @ [isTopElement ! n])
         else
           splitOp_cut tokenList isTopElement ns (tmp @ [tokenList ! n]) chunksOut chunkIsTop))"

definition splitOp :: "node list \<Rightarrow> int \<Rightarrow> error + node list list \<times> bool list" where
  "splitOp tokenList prio =
     (let nElements = length tokenList;
          isTopElement = replicate nElements False
      in case splitOp_mark prio (enumerate 0 tokenList) isTopElement of
           Inl e \<Rightarrow> Inl e
         | Inr isTopElement1 \<Rightarrow>
             Inr (splitOp_cut tokenList isTopElement1 [0 ..< nElements] [] [] []))"

text \<open>Step 3 of \<open>nest\<close>: the chunks of highest priority become \<open>Macroleaf\<close> nodes.\<close>

fun mergeChunks :: "node list list \<Rightarrow> bool list \<Rightarrow> nat list \<Rightarrow> node list \<Rightarrow> node list" where
  "mergeChunks chunks chunkNeedsMacro [] newStack = newStack"
| "mergeChunks chunks chunkNeedsMacro (i # is) newStack =
     (if chunkNeedsMacro ! i then
        mergeChunks chunks chunkNeedsMacro is (newStack @ [newMacroleaf ''id'' (chunks ! i)])
      else mergeChunks chunks chunkNeedsMacro is (newStack @ chunks ! i))"

definition nest_step :: "node list \<Rightarrow> int \<Rightarrow> error + node list" where
  \<comment> \<open>the body of the \<open>while\<close> loop up to the new stack\<close>
  "nest_step stack maxPriority =
     (case splitOp stack maxPriority of
        Inl e \<Rightarrow> Inl e
      | Inr (chunks, chunkNeedsMacro) \<Rightarrow>
          if length chunks > 1 then Inr (mergeChunks chunks chunkNeedsMacro [0 ..< length chunks] [])
          else Inr stack)"

text \<open>
  The \<open>while\<close> loop of \<open>nest\<close>.  The source gives no bound on its iterations, so it is a
  partial function.
\<close>

partial_function (option) nest_loop :: "node list \<Rightarrow> int \<Rightarrow> int \<Rightarrow> node list outcome" where
  "nest_loop stack minPriority maxPriority =
     (if maxPriority \<noteq> minPriority then
        (case nest_step stack maxPriority of
           Inl e \<Rightarrow> Some (Inl e)
         | Inr stack1 \<Rightarrow>
             (case getPriorityRange stack1 of
                (minPriority1, maxPriority1) \<Rightarrow> nest_loop stack1 minPriority1 maxPriority1))
      else Some (Inr stack))"

declare nest_loop.simps [code]

text \<open>
  Check 2 of \<open>nest\<close>: operands at the even indices, infix operators at the odd ones;
  the result is the number of infix operators.  Check 1, on the parity of the length,
  only prints.
\<close>

fun checkPattern :: "(nat \<times> node) list \<Rightarrow> nat \<Rightarrow> error + nat" where
  "checkPattern [] nInfix = Inr nInfix"
| "checkPattern ((n, element) # rest) nInfix =
     (if n mod 2 = 0 then
        (if ntype element \<notin> set [''NUMBER'', ''VAR'', ''CONSTANT'', ''MACRO''] then Inl SystemExit
         else checkPattern rest nInfix)
      else
        (if ntype element \<noteq> ''INFIX'' then Inl SystemExit
         else checkPattern rest (nInfix + 1)))"

text \<open>
  \<open>nest\<close>: the checks, then the arguments of every \<open>Macroleaf\<close> of the stack, then the loop.
  \<open>Macroleaf.nest\<close> is modelled from the spec: every argument of the node is nested.
\<close>

function nest :: "node list \<Rightarrow> node list outcome" where
  "nest stack =
     (case checkPattern (enumerate 0 stack) 0 of
        Inl e \<Rightarrow> Some (Inl e)
      | Inr nInfix \<Rightarrow>
         (case forEach (\<lambda>element. case element of
                   Macroleaf f as \<Rightarrow>
                     (case forEach nest as of
                        None \<Rightarrow> None
                      | Some (Inl e) \<Rightarrow> Some (Inl e)
                      | Some (Inr as') \<Rightarrow> Some (Inr (Macroleaf f as')))
                 | Tok t \<Rightarrow> Some (Inr element)) stack of
            None \<Rightarrow> None
          | Some (Inl e) \<Rightarrow> Some (Inl e)
          | Some (Inr stack1) \<Rightarrow>
              if nInfix \<ge> 2 then
                (case getPriorityRange stack1 of
                   (minPriority, maxPriority) \<Rightarrow> nest_loop stack1 minPriority maxPriority)
              else Some (Inr stack1)))"
  by pat_completeness auto
termination
proof (relation "measure (size_list size)", goal_cases)
  case 1
  show ?case by simp
next
  case (2 stack nInfix element f as a)
  have "element \<in> set stack"
    using 2 by simp
  hence "size element < size_list size stack"
    by (rule size_elt_less)
  moreover have "size_list size a < size element"
    using 2 size_arg_less [of a as] by simp
  ultimately show ?case by simp
qed

declare nest.simps [simp del]

section \<open>binary: well-formed stacks and one step of the nesting\<close>

text \<open>
  The predicates and functions in which the nesting is specified.  \<open>alternating\<close> is the
  pattern \<open>L op L op ... L\<close> that \<open>nest\<close> checks: a leaf (a number, a variable, a
  constant or a \<open>Macroleaf\<close>), then pairs of an infix node and a leaf; such a stack has an
  odd number of nodes.  \<open>isTop prio\<close> holds of the infix nodes of priority \<open>prio\<close>;
  \<open>marks\<close> is the side array of \<open>_splitOp\<close>, every such node marked with its two
  neighbours; \<open>runsFrom\<close> cuts a marked stack into its runs of equal marks, \<open>render\<close>
  makes a \<open>Macroleaf\<close> of a marked run, and \<open>collapse\<close> is the stack that results.
  \<open>opsF\<close> is the pattern \<open>op L op L ...\<close> on a marked stack when every marked infix node has
  both neighbours marked.  \<open>samePriority\<close> holds when all infix nodes of a stack have one
  priority, \<open>infixPriorities\<close> is the set of the priorities of its infix nodes, and
  \<open>sameShape\<close> relates a node to what the recursion into the \<open>Macroleaf\<close> nodes makes of it.
\<close>

definition isInfix :: "node \<Rightarrow> bool" where
  "isInfix e = (ntype e = ''INFIX'')"

definition isLeaf :: "node \<Rightarrow> bool" where
  "isLeaf e = (ntype e \<in> set [''NUMBER'', ''VAR'', ''CONSTANT'', ''MACRO''])"

definition isTop :: "int \<Rightarrow> node \<Rightarrow> bool" where
  "isTop prio e = (ntype e = ''INFIX'' \<and> priority e = prio)"

fun runsFrom :: "bool \<Rightarrow> node list \<Rightarrow> (bool \<times> node) list \<Rightarrow> (bool \<times> node list) list" where
  "runsFrom b tmp [] = [(b, tmp)]"
| "runsFrom b tmp ((b', x) # rest) =
     (if b' = b then runsFrom b (tmp @ [x]) rest else (b, tmp) # runsFrom b' [x] rest)"

definition render :: "bool \<times> node list \<Rightarrow> node list" where
  "render bc = (if fst bc then [newMacroleaf ''id'' (snd bc)] else snd bc)"

function collapse :: "(bool \<times> node) list \<Rightarrow> node list" where
  "collapse [] = []"
| "collapse ((False, x) # rest) = x # collapse rest"
| "collapse ((True, x) # rest) =
     newMacroleaf ''id'' (x # map snd (takeWhile fst rest)) # collapse (dropWhile fst rest)"
  by pat_completeness auto
termination
  by (relation "measure length") (auto simp: length_dropWhile_le le_imp_less_Suc)

definition marks :: "int \<Rightarrow> node list \<Rightarrow> bool list" where
  "marks prio stack =
     map (\<lambda>j. isTop prio (stack ! j)
              \<or> (0 < j \<and> isTop prio (stack ! (j - 1)))
              \<or> (j + 1 < length stack \<and> isTop prio (stack ! (j + 1))))
         [0 ..< length stack]"

fun operators :: "node list \<Rightarrow> bool" where
  "operators [] = True"
| "operators [x] = False"
| "operators (oper # leaf # rest) = (isInfix oper \<and> isLeaf leaf \<and> operators rest)"

definition alternating :: "node list \<Rightarrow> bool" where
  "alternating stack = (case stack of [] \<Rightarrow> False | leaf # rest \<Rightarrow> isLeaf leaf \<and> operators rest)"

fun opsF :: "bool \<Rightarrow> (bool \<times> node) list \<Rightarrow> bool" where
  "opsF p [] = True"
| "opsF p [x] = False"
| "opsF p ((c, oper) # (b, leaf) # rest) =
     (isInfix oper \<and> isLeaf leaf \<and> (c \<longrightarrow> p \<and> b) \<and> opsF b rest)"

definition samePriority :: "node list \<Rightarrow> bool" where
  "samePriority st = (\<forall>e\<in>set st. \<forall>f\<in>set st. isInfix e \<and> isInfix f \<longrightarrow> priority e = priority f)"

definition infixPriorities :: "node list \<Rightarrow> int set" where
  "infixPriorities st = set (map priority (filter isInfix st))"

definition sameShape :: "node \<Rightarrow> node \<Rightarrow> bool" where
  "sameShape x y = (ntype y = ntype x \<and> (isInfix x \<longrightarrow> y = x))"

section \<open>binary: evaluation\<close>

text \<open>
  \<open>_evalLeaf\<close> and \<open>eval\<close>.  The attribute \<open>value\<close> of a token of module \<open>symbols\<close> and the
  method \<open>Macroleaf.eval\<close> are parameters.  A Python function that ends without \<open>return\<close>
  gives \<open>None\<close>: the result is an optional value.  \<open>eval\<close> calls \<open>_evalOp\<close> with the
  keywords \<open>op\<close>, \<open>leftOperand\<close> and \<open>rightOperand\<close>, which \<open>_evalOp(self, leaf)\<close> does
  not take: the call raises \<open>TypeError\<close>.
\<close>

definition evalLeaf ::
    "(node \<Rightarrow> 'v) \<Rightarrow> (node \<Rightarrow> error + 'v option) \<Rightarrow> node \<Rightarrow> error + 'v option" where
  "evalLeaf value_of macro_eval leaf =
     (if ntype leaf \<in> set [''CONSTANT'', ''NUMBER''] then Inr (Some (value_of leaf))
      else if ntype leaf = ''VARIABLE'' then Inr None
      else if ntype leaf = ''MACRO'' then macro_eval leaf
      else Inr None)"

definition eval ::
    "(node \<Rightarrow> 'v) \<Rightarrow> (node \<Rightarrow> error + 'v option) \<Rightarrow> node list \<Rightarrow> error + 'v option" where
  "eval value_of macro_eval stack =
     (let nElements = length stack in
      if nElements > 1 then Inl TypeError
      else if stack = [] then Inl IndexError
      else
        (case evalLeaf value_of macro_eval (stack ! 0) of
           Inl e \<Rightarrow> Inl e
         | Inr output \<Rightarrow> Inr None))"

section \<open>Properties of the string utilities\<close>

lemma split_concat: "fst (split s n) @ snd (split s n) = s"
  by (simp add: split_def)

lemma pop_concat: "fst (pop s) @ snd (pop s) = s"
  by (cases s) (auto simp: pop_def drop_Suc)

text \<open>
  Claim C10.  \<open>split(s, n)\<close> returns a head and a tail whose concatenation is \<open>s\<close>; the
  head is empty when \<open>n \<le> 0\<close> and is \<open>s\<close> when \<open>n \<ge> len(s)\<close>.  \<open>pop(s)\<close> returns the
  first character of \<open>s\<close> and the rest of \<open>s\<close>, whose concatenation is \<open>s\<close>, and both are
  empty for the empty string.
\<close>

theorem split_pop_exact:
  "fst (split s n) @ snd (split s n) = s
   \<and> (n \<le> 0 \<longrightarrow> fst (split s n) = [])
   \<and> (n \<ge> int (length s) \<longrightarrow> fst (split s n) = s)
   \<and> pop s = (take 1 s, drop 1 s)
   \<and> fst (pop s) @ snd (pop s) = s
   \<and> pop [] = ([], [])"
proof -
  have a: "n \<le> 0 \<longrightarrow> fst (split s n) = []"
    by (auto simp: split_def)
  have b: "n \<ge> int (length s) \<longrightarrow> fst (split s n) = s"
    by (auto simp: split_def)
  have c: "pop s = (take 1 s, drop 1 s)"
    by (cases s) (auto simp: pop_def)
  have d: "pop [] = ([], [])"
    by (simp add: pop_def)
  from a b c d split_concat pop_concat show ?thesis
    by blast
qed

theorem split_pop_exact_witness:
  "(-1::int) \<le> 0 \<and> fst (split ''pouet'' (-1)) = []
   \<and> (6::int) \<ge> int (length ''pouet'') \<and> fst (split ''pouet'' 6) = ''pouet''
   \<and> split ''pouet'' 2 = (''po'', ''uet'')
   \<and> pop ''abcde'' = (''a'', ''bcde'')"
  using split_pop_exact [of "''pouet''" "-1"] split_pop_exact [of "''pouet''" 6]
    split_pop_exact [of "''abcde''" 0]
  by (simp add: split_def)

section \<open>Evaluating the lexer and the passes on concrete inputs\<close>

lemmas lexer_eval =
  tokenize_def tokenize_loop.simps inputStr_of_def consumeSpace_def consumeNumber_def
  consumeConst_def consumeFunc_def consumeVar_def consumeInfix_def split_def pop_def
  Token_def checkVariableSyntax_def isNumber_def isAlpha_def isDigit_def str_isdigit_def
  isBlank_def CONSTANTS_names_def FUNCTIONS_def INFIX_OPS_def reservedNames_def
  upt_conv_Cons Let_def

lemmas binary_eval =
  Binary_def buildStack.simps balanceMinus_def explicitZeros.simps minusAsOpp.simps
  minusAsOpp_loop.simps ntype_def nname_def
  newMacroleaf_def zeroToken_def Let_def

lemma tokens_minus_x:
  "tokenize self ''-x'' = Some (Inr [tk ''INFIX'' ''-'', tk ''VAR'' ''x''])"
  by (simp add: lexer_eval)

lemma tokens_power_minus:
  "tokenize self ''2^-4'' =
     Some (Inr [tk ''NUMBER'' ''2'', tk ''INFIX'' ''^'', tk ''INFIX'' ''-'', tk ''NUMBER'' ''4''])"
  by (simp add: lexer_eval)

lemma tokens_times_minus:
  "tokenize self ''1*-4'' =
     Some (Inr [tk ''NUMBER'' ''1'', tk ''INFIX'' ''*'', tk ''INFIX'' ''-'', tk ''NUMBER'' ''4''])"
  by (simp add: lexer_eval)

lemma tokens_two_pi:
  "tokenize self ''2pi'' = Some (Inr [tk ''NUMBER'' ''2'', tk ''CONSTANT'' ''pi''])"
  by (simp add: lexer_eval)

section \<open>The multiplication expander\<close>

text \<open>
  Claim C1.  The expander is claimed to insert a multiplication token between a closing
  bracket and a constant, and between a number and a constant.  The cases of the source
  for these two pairs test the tag \<open>CONST\<close>, while a constant token carries the tag
  \<open>CONSTANT\<close>: on the tokens of \<open>2pi\<close>, and on a closing bracket followed by \<open>pi\<close>, the
  expander returns its input unchanged.
\<close>

theorem expandMult_constant_not_expanded:
  "tokenize self ''2pi'' = Some (Inr [tk ''NUMBER'' ''2'', tk ''CONSTANT'' ''pi''])
   \<and> Token ''pi'' = Inr (tk ''CONSTANT'' ''pi'')
   \<and> expandMult [tk ''NUMBER'' ''2'', tk ''CONSTANT'' ''pi'']
       = [tk ''NUMBER'' ''2'', tk ''CONSTANT'' ''pi'']
   \<and> expandMult [tk ''BRKT_CLOSE'' '')'', tk ''CONSTANT'' ''pi'']
       = [tk ''BRKT_CLOSE'' '')'', tk ''CONSTANT'' ''pi'']
   \<and> expandMult [tk ''NUMBER'' ''2'', tk ''VAR'' ''x'']
       = [tk ''NUMBER'' ''2'', multToken, tk ''VAR'' ''x'']"
proof -
  have "Token ''pi'' = Inr (tk ''CONSTANT'' ''pi'')"
    by (simp add: Token_def CONSTANTS_names_def)
  moreover have "expandMult [tk ''NUMBER'' ''2'', tk ''CONSTANT'' ''pi'']
       = [tk ''NUMBER'' ''2'', tk ''CONSTANT'' ''pi'']"
    by (simp add: expandMult_def multCases_def)
  moreover have "expandMult [tk ''BRKT_CLOSE'' '')'', tk ''CONSTANT'' ''pi'']
       = [tk ''BRKT_CLOSE'' '')'', tk ''CONSTANT'' ''pi'']"
    by (simp add: expandMult_def multCases_def)
  moreover have "expandMult [tk ''NUMBER'' ''2'', tk ''VAR'' ''x'']
       = [tk ''NUMBER'' ''2'', multToken, tk ''VAR'' ''x'']"
    by (simp add: expandMult_def multCases_def)
  ultimately show ?thesis
    using tokens_two_pi by simp
qed

section \<open>Balancing the minus signs\<close>

text \<open>
  Where the loop of \<open>_minusAsOpp\<close> meets two infix operators that are not \<open>^\<close> followed by
  \<open>-\<close>, no branch moves the counter: the loop stays at that index forever.
\<close>

lemma minusAsOpp_loop_stuck:
  assumes "int n \<le> int (length stack) - 2"
    and "ntype (stack ! n) = ''INFIX''" and "ntype (stack ! (n + 1)) = ''INFIX''"
    and "\<not> (nname (stack ! n) = ''^'' \<and> nname (stack ! (n + 1)) = ''-'')"
  shows "minusAsOpp_loop stack n newStack = None"
proof -
  let ?stuck = "\<lambda>st k. int k \<le> int (length st) - 2 \<and> ntype (st ! k) = ''INFIX''
      \<and> ntype (st ! (k + 1)) = ''INFIX'' \<and> \<not> (nname (st ! k) = ''^'' \<and> nname (st ! (k + 1)) = ''-'')"
  have "\<not> ?stuck st k" if "minusAsOpp_loop st k acc = Some y" for st k acc y
    by (rule minusAsOpp_loop.raw_induct [where P = "\<lambda>st k acc y. \<not> ?stuck st k", OF _ that])
       (auto simp: Let_def split: if_splits)
  with assms show ?thesis
    by (cases "minusAsOpp_loop stack n newStack") auto
qed

text \<open>
  Claim C2.  On a stack with the pattern \<open>op1, -, operand\<close>, where \<open>op1\<close> is an infix
  operator other than \<open>^\<close>, the pass is claimed to terminate and to wrap the operand.
  On the stack built from \<open>1*-4\<close> the loop of \<open>_minusAsOpp\<close> never returns: the branch for
  any other pair of infix operators repeats the condition of the branch before it and is
  never taken, and the first branch leaves the counter where it is.
\<close>

theorem minusAsOpp_times_minus_never_returns:
  "tokenize self ''1*-4'' =
     Some (Inr [tk ''NUMBER'' ''1'', tk ''INFIX'' ''*'', tk ''INFIX'' ''-'', tk ''NUMBER'' ''4''])
   \<and> expandMult [tk ''NUMBER'' ''1'', tk ''INFIX'' ''*'', tk ''INFIX'' ''-'', tk ''NUMBER'' ''4'']
       = [tk ''NUMBER'' ''1'', tk ''INFIX'' ''*'', tk ''INFIX'' ''-'', tk ''NUMBER'' ''4'']
   \<and> minusAsOpp [Tok (tk ''NUMBER'' ''1''), Tok (tk ''INFIX'' ''*''), Tok (tk ''INFIX'' ''-''),
         Tok (tk ''NUMBER'' ''4'')] = None
   \<and> Binary mkMacroleaf [Tok (tk ''NUMBER'' ''1''), Tok (tk ''INFIX'' ''*''),
         Tok (tk ''INFIX'' ''-''), Tok (tk ''NUMBER'' ''4'')] = None"
proof -
  let ?stack = "[Tok (tk ''NUMBER'' ''1''), Tok (tk ''INFIX'' ''*''), Tok (tk ''INFIX'' ''-''),
         Tok (tk ''NUMBER'' ''4'')]"
  have stuck: "minusAsOpp_loop ?stack 1 acc = None" for acc
    by (rule minusAsOpp_loop_stuck) (simp_all add: ntype_def nname_def)
  have "minusAsOpp_loop ?stack 0 [] = minusAsOpp_loop ?stack 1 [Tok (tk ''NUMBER'' ''1'')]"
    by (subst minusAsOpp_loop.simps) (simp add: ntype_def Let_def)
  hence loop: "minusAsOpp ?stack = None"
    using stuck by (simp add: minusAsOpp.simps)
  have "explicitZeros ?stack = ?stack"
    by (simp add: explicitZeros.simps ntype_def)
  moreover have "buildStack mkMacroleaf ?stack [] [] = Some (Inr (?stack, []))"
    by (simp add: buildStack.simps ntype_def)
  ultimately have "Binary mkMacroleaf ?stack = None"
    using loop by (simp add: Binary_def balanceMinus_def)
  moreover have "expandMult [tk ''NUMBER'' ''1'', tk ''INFIX'' ''*'', tk ''INFIX'' ''-'', tk ''NUMBER'' ''4'']
       = [tk ''NUMBER'' ''1'', tk ''INFIX'' ''*'', tk ''INFIX'' ''-'', tk ''NUMBER'' ''4'']"
    by (simp add: expandMult_def multCases_def)
  ultimately show ?thesis
    using loop tokens_times_minus by simp
qed

text \<open>
  Claim C4, as stated: a zero leaf is prepended exactly when the stack begins with an
  infix minus.  The stack that holds the single node \<open>-\<close> begins with an infix minus and
  is returned as it is: the source asks for two nodes at least.
\<close>

theorem explicitZeros_single_minus_counterexample:
  "ntype ([Tok (tk ''INFIX'' ''-'')] ! 0) = ''INFIX''
   \<and> nname ([Tok (tk ''INFIX'' ''-'')] ! 0) = ''-''
   \<and> explicitZeros [Tok (tk ''INFIX'' ''-'')] = [Tok (tk ''INFIX'' ''-'')]"
  by (simp add: explicitZeros.simps ntype_def nname_def)

lemma explicitZeros_exact:
  "explicitZeros stack =
     (if 2 \<le> length stack \<and> ntype (stack ! 0) = ''INFIX'' \<and> nname (stack ! 0) = ''-''
      then [Tok zeroToken] else [])
     @ map (\<lambda>elt. case elt of
                     Macroleaf f as \<Rightarrow> Macroleaf f (map explicitZeros as)
                   | Tok t \<Rightarrow> elt) stack"
  by (subst explicitZeros.simps) (simp add: Let_def)

text \<open>
  Claim C4, amended.  The \<open>Binary\<close> built from the tokens of \<open>-x\<close> has the stack
  \<open>0, -, x\<close>; the one built from the tokens of \<open>2^-4\<close> has the stack \<open>2, ^, opp(4)\<close>; and
  \<open>_explicitZeros\<close> prepends a zero leaf to a stack exactly when the stack has two nodes
  at least and begins with an infix minus: the result is the zero leaf, or nothing,
  followed by the nodes of the stack in their order, every token as it is and every
  \<open>Macroleaf\<close> with the same pass applied to its arguments.
\<close>

theorem minus_balancing_documented_cases:
  "tokenize self ''-x'' = Some (Inr [tk ''INFIX'' ''-'', tk ''VAR'' ''x''])
   \<and> Binary mkMacroleaf (map Tok (expandMult [tk ''INFIX'' ''-'', tk ''VAR'' ''x'']))
       = Some (Inr ([Tok (tk ''NUMBER'' ''0''), Tok (tk ''INFIX'' ''-''), Tok (tk ''VAR'' ''x'')], []))
   \<and> tokenize self ''2^-4''
       = Some (Inr [tk ''NUMBER'' ''2'', tk ''INFIX'' ''^'', tk ''INFIX'' ''-'', tk ''NUMBER'' ''4''])
   \<and> Binary mkMacroleaf
         (map Tok (expandMult [tk ''NUMBER'' ''2'', tk ''INFIX'' ''^'', tk ''INFIX'' ''-'', tk ''NUMBER'' ''4'']))
       = Some (Inr ([Tok (tk ''NUMBER'' ''2''), Tok (tk ''INFIX'' ''^''),
                     Macroleaf ''opp'' [[Tok (tk ''NUMBER'' ''4'')]]], []))
   \<and> explicitZeros stack =
       (if 2 \<le> length stack \<and> ntype (stack ! 0) = ''INFIX'' \<and> nname (stack ! 0) = ''-''
        then [Tok zeroToken] else [])
       @ map (\<lambda>elt. case elt of
                       Macroleaf f as \<Rightarrow> Macroleaf f (map explicitZeros as)
                     | Tok t \<Rightarrow> elt) stack"
proof -
  have a: "Binary mkMacroleaf (map Tok (expandMult [tk ''INFIX'' ''-'', tk ''VAR'' ''x'']))
       = Some (Inr ([Tok (tk ''NUMBER'' ''0''), Tok (tk ''INFIX'' ''-''), Tok (tk ''VAR'' ''x'')], []))"
    by (simp add: expandMult_def multCases_def binary_eval)
  have b: "Binary mkMacroleaf
         (map Tok (expandMult [tk ''NUMBER'' ''2'', tk ''INFIX'' ''^'', tk ''INFIX'' ''-'', tk ''NUMBER'' ''4'']))
       = Some (Inr ([Tok (tk ''NUMBER'' ''2''), Tok (tk ''INFIX'' ''^''),
                     Macroleaf ''opp'' [[Tok (tk ''NUMBER'' ''4'')]]], []))"
    by (simp add: expandMult_def multCases_def binary_eval)
  show ?thesis
    apply (intro conjI)
        apply (rule tokens_minus_x)
       apply (rule a)
      apply (rule tokens_power_minus)
     apply (rule b)
    apply (rule explicitZeros_exact)
    done
qed


lemma ntype_newMacroleaf: "ntype (newMacroleaf f xs) = ''MACRO''"
  by (simp add: ntype_def newMacroleaf_def)



















section \<open>Evaluation\<close>

text \<open>
  Claim C8.  \<open>eval\<close> on a stack of one operand is claimed to return the value of that
  operand.  \<open>eval\<close> stores what \<open>_evalLeaf\<close> gives in a local variable and ends without
  returning it: on a stack of one number the result is \<open>None\<close>, whatever the value of the
  leaf.  A variable leaf, whose tag is \<open>VAR\<close>, does not reach the branch of \<open>_evalLeaf\<close>
  for \<open>VARIABLE\<close>, and no branch looks a name up.
\<close>

theorem eval_single_operand_returns_none:
  "evalLeaf value_of macro_eval (Tok (tk ''NUMBER'' ''2'')) = Inr (Some (value_of (Tok (tk ''NUMBER'' ''2''))))
   \<and> eval value_of macro_eval [Tok (tk ''NUMBER'' ''2'')] = Inr None
   \<and> eval value_of macro_eval [Tok (tk ''CONSTANT'' ''pi'')] = Inr None
   \<and> Token ''x'' = Inr (tk ''VAR'' ''x'')
   \<and> evalLeaf value_of macro_eval (Tok (tk ''VAR'' ''x'')) = Inr None
   \<and> eval value_of macro_eval [Tok (tk ''VAR'' ''x'')] = Inr None"
proof -
  have "Token ''x'' = Inr (tk ''VAR'' ''x'')"
    by (simp add: lexer_eval)
  then show ?thesis
    by (simp add: eval_def evalLeaf_def ntype_def)
qed

section \<open>Termination of the lexer\<close>

text \<open>
  In the last branch of the loop of \<open>tokenize\<close> the first character is consumed when it
  is a bracket or a comma; for any other character nothing is consumed and the loop
  starts again on the same input.
\<close>

lemma consume_dollar:
  "consumeSpace self ''$'' = Some ([], ''$'')"
  "consumeNumber self ''$'' = Inr ([], ''$'')"
  "consumeConst self ''$'' = ([], ''$'')"
  "consumeFunc self ''$'' = ([], ''$'')"
  "consumeVar self ''$'' = Inr ([], ''$'')"
  "consumeInfix self ''$'' = ([], ''$'')"
  "pop ''$'' = (''$'', [])"
  by (simp_all add: lexer_eval)

lemma tokenize_loop_dollar: "tokenize_loop self ''$'' tokenList = None"
proof -
  have "s \<noteq> ''$''" if "tokenize_loop q s acc = Some y" for q s acc y
    apply (rule tokenize_loop.raw_induct [where P = "\<lambda>q s acc y. s \<noteq> ''$''", OF _ that])
    apply (auto simp: consume_dollar)
    apply blast
    done
  then show ?thesis
    by (cases "tokenize_loop self ''$'' tokenList") auto
qed

text \<open>
  Claim C9.  \<open>tokenize\<close> is claimed to terminate on every input, also when the
  remaining input starts with a character that no rule matches.  On \<open>$\<close>, and on \<open>2 $\<close>
  after the number is read, no rule matches and the loop never returns.
\<close>

theorem tokenize_unknown_character_never_returns:
  "tokenize self ''$'' = None \<and> tokenize self ''2 $'' = None"
proof -
  have a: "tokenize self ''$'' = None"
    by (simp add: tokenize_def inputStr_of_def tokenize_loop_dollar)
  have "tokenize self ''2 $'' = tokenize_loop self '' $'' [tk ''NUMBER'' ''2'']"
    unfolding tokenize_def
    by (subst tokenize_loop.simps) (simp add: lexer_eval del: tokenize_loop.simps)
  also have "\<dots> = tokenize_loop self ''$'' [tk ''NUMBER'' ''2'']"
    by (subst tokenize_loop.simps) (simp add: lexer_eval del: tokenize_loop.simps)
  finally show ?thesis
    using a by (simp add: tokenize_loop_dollar)
qed

section \<open>The lexer reads its input\<close>

text \<open>
  What each \<open>consume\<close> method returns: the lexeme and the rest make up the input, and
  the lexeme holds no space.
\<close>

lemma inputStr_of_nonempty: "s \<noteq> [] \<Longrightarrow> inputStr_of self s = s"
  by (simp add: inputStr_of_def)

lemma split_take_drop: "0 < n \<Longrightarrow> n \<le> length s \<Longrightarrow> split s (int n) = (take n s, drop n s)"
  by (auto simp: split_def)

lemma split_zero: "s \<noteq> [] \<Longrightarrow> split s 0 = ([], s)"
  by (simp add: split_def)

lemma split_eqD: "split s n = (h, t) \<Longrightarrow> h @ t = s"
  using split_concat [of s n] by simp

lemma consumeSpace_loop_upt:
  "k \<le> length s \<Longrightarrow> \<forall>j<k. s ! j = CHR '' '' \<Longrightarrow> consumeSpace_loop s [k ..< length s] = Some (h, t)
   \<Longrightarrow> h @ t = s \<and> filter nonspace h = []"
proof (induction "length s - k" arbitrary: k)
  case 0
  then show ?case by simp
next
  case (Suc d)
  then have lt: "k < length s" by simp
  then have upt: "[k ..< length s] = k # [Suc k ..< length s]"
    by (simp add: upt_conv_Cons)
  show ?case
  proof (cases "s ! k = CHR '' ''")
    case True
    with Suc.prems upt have "consumeSpace_loop s [Suc k ..< length s] = Some (h, t)"
      by simp
    moreover have "\<forall>j<Suc k. s ! j = CHR '' ''"
      using True Suc.prems(2) by (auto simp: less_Suc_eq)
    moreover have "d = length s - Suc k" using Suc.hyps(2) by simp
    ultimately show ?thesis
      using Suc.hyps(1) [of "Suc k"] lt by simp
  next
    case False
    with Suc.prems upt have ht: "split s (int k) = (h, t)"
      by simp
    have "h = take k s"
    proof (cases "k = 0")
      case True
      then show ?thesis using ht lt by (auto simp: split_def)
    next
      case False
      then show ?thesis using ht lt split_take_drop [of k s] by simp
    qed
    moreover have "filter nonspace (take k s) = []"
      using Suc.prems(2) lt by (auto simp: filter_empty_conv in_set_conv_nth)
    ultimately show ?thesis
      using split_eqD [OF ht] by simp
  qed
qed

lemma consumeSpace_filter:
  assumes "s \<noteq> []" and "consumeSpace self s = Some (h, t)"
  shows "filter nonspace s = filter nonspace t"
proof -
  have "consumeSpace_loop s [0 ..< length s] = Some (h, t)"
    using assms by (simp add: consumeSpace_def inputStr_of_nonempty)
  then have "h @ t = s \<and> filter nonspace h = []"
    by (intro consumeSpace_loop_upt) simp_all
  then show ?thesis
    by (metis append_Nil filter_append)
qed

lemma isNumber_loop_chars: "isNumber_loop g h \<Longrightarrow> \<forall>c\<in>set h. isDigit c \<or> c = CHR ''.''"
  by (induction g h rule: isNumber_loop.induct) (auto split: if_splits)

lemma isDigit_nonspace: "isDigit c \<Longrightarrow> nonspace c"
  by (auto simp: isDigit_def)

lemma isAlpha_nonspace: "isAlpha c \<Longrightarrow> nonspace c"
  by (auto simp: isAlpha_def)

lemma isAlpha_not_underscore: "isAlpha ch \<Longrightarrow> ch \<noteq> CHR ''_''"
  by (auto simp: isAlpha_def)

lemma isNumber_nonspace: "isNumber h \<Longrightarrow> CHR '' '' \<notin> set h"
  using isNumber_loop_chars [of False h] isDigit_nonspace
  by (auto simp: isNumber_def split: if_splits)

lemma consumeNumber_loop_res:
  "consumeNumber_loop s ns m0 = m0
   \<or> isNumber (fst (split s (int (consumeNumber_loop s ns m0))))"
proof (induction ns arbitrary: m0)
  case Nil
  show ?case by simp
next
  case (Cons n ns)
  show ?case
  proof (cases "isNumber (fst (split s (int n)))")
    case True
    then have "consumeNumber_loop s (n # ns) m0 = consumeNumber_loop s ns n"
      by (simp add: case_prod_beta)
    then show ?thesis using Cons [of n] True by auto
  next
    case False
    then show ?thesis by (simp add: case_prod_beta)
  qed
qed

lemma consumeNumber_res:
  assumes "s \<noteq> []" and "consumeNumber self s = Inr (h, t)"
  shows "h @ t = s \<and> CHR '' '' \<notin> set h \<and> (h \<noteq> [] \<longrightarrow> isNumber h)"
proof (cases "str_isdigit (s ! 0) \<or> s ! 0 = CHR ''.''")
  case False
  with assms show ?thesis
    by (auto simp: consumeNumber_def inputStr_of_nonempty)
next
  case True
  define m where "m = consumeNumber_loop s [1 ..< length s + 1] 0"
  have ht: "split s (int m) = (h, t)"
    using assms True by (auto simp: consumeNumber_def inputStr_of_nonempty m_def Let_def)
  have "m = 0 \<or> isNumber (fst (split s (int m)))"
    using consumeNumber_loop_res [of s "[1 ..< length s + 1]" 0] by (simp add: m_def)
  then have "h = [] \<or> isNumber h"
    using ht assms(1) by (auto simp: split_zero)
  then show ?thesis
    using split_eqD [OF ht] isNumber_nonspace by (auto simp: isNumber_def)
qed


lemma constant_chars: "c \<in> set CONSTANTS_names \<Longrightarrow> c \<noteq> [] \<and> (\<forall>ch\<in>set c. isAlpha ch)"
  by (auto simp: CONSTANTS_names_def isAlpha_def)

lemma function_chars:
  "f \<in> set (map fst FUNCTIONS) \<Longrightarrow> f \<noteq> [] \<and> (\<forall>ch\<in>set f. isAlpha ch \<or> isDigit ch)"
  by (auto simp: FUNCTIONS_def isAlpha_def isDigit_def)

lemma infix_chars:
  "i \<in> set (map fst INFIX_OPS) \<Longrightarrow> i \<noteq> [] \<and> (\<forall>ch\<in>set i. \<not> isAlpha ch \<and> nonspace ch)"
  by (auto simp: INFIX_OPS_def isAlpha_def)

text \<open>What \<open>consumeConst\<close> returns when it returns a constant.\<close>

lemma consumeConst_loop_sound:
  assumes "\<forall>n\<in>set ns. 1 \<le> n \<and> n \<le> length s"
    and "consumeConst_loop s ns = (h, t)" and "h \<noteq> []"
  shows "h \<in> set CONSTANTS_names \<and> h @ t = s \<and> (t = [] \<or> (\<not> isAlpha (t ! 0) \<and> t ! 0 \<noteq> CHR ''_''))"
  using assms
proof (induction ns)
  case Nil
  then show ?case by simp
next
  case (Cons n ns)
  obtain head tail where sp: "split s (int n) = (head, tail)"
    by (cases "split s (int n)")
  have n: "1 \<le> n" "n \<le> length s" using Cons.prems(1) by auto
  then have ht: "head = take n s" "tail = drop n s"
    using sp split_take_drop [of n s] by auto
  show ?case
  proof (cases "head \<in> set CONSTANTS_names")
    case False
    then have "consumeConst_loop s (n # ns) = consumeConst_loop s ns"
      using sp by simp
    then show ?thesis using Cons by simp
  next
    case True
    show ?thesis
    proof (cases "n = length s")
      case True
      then have "consumeConst_loop s (n # ns) = (head, [])"
        using sp \<open>head \<in> set CONSTANTS_names\<close> by simp
      then show ?thesis
        using Cons.prems(2) \<open>head \<in> set CONSTANTS_names\<close> ht True by simp
    next
      case False
      consider "tail ! 0 = CHR ''_''" | "tail ! 0 \<noteq> CHR ''_''" "isAlpha (tail ! 0)"
        | "tail ! 0 \<noteq> CHR ''_''" "\<not> isAlpha (tail ! 0)"
        by blast
      then show ?thesis
      proof cases
        case 1
        then have "consumeConst_loop s (n # ns) = ([], s)"
          using sp True False by simp
        then show ?thesis using Cons.prems by simp
      next
        case 2
        then have "consumeConst_loop s (n # ns) = consumeConst_loop s ns"
          using sp True False by simp
        then show ?thesis using Cons by simp
      next
        case 3
        then have "consumeConst_loop s (n # ns) = (head, tail)"
          using sp True False by simp
        then show ?thesis
          using Cons.prems(2) True 3 split_eqD [OF sp] by auto
      qed
    qed
  qed
qed


lemma range_bounds: "\<forall>n\<in>set [1 ..< length s + 1]. 1 \<le> n \<and> n \<le> length s"
  by auto

lemma consumeConst_sound:
  assumes "s \<noteq> []" and "consumeConst self s = (h, t)" and "h \<noteq> []"
  shows "h \<in> set CONSTANTS_names \<and> h @ t = s \<and> (t = [] \<or> (\<not> isAlpha (t ! 0) \<and> t ! 0 \<noteq> CHR ''_''))"
proof -
  have loop: "consumeConst_loop s [1 ..< length s + 1] = (h, t)"
    using assms(1,2) by (simp add: consumeConst_def inputStr_of_nonempty del: upt_Suc)
  show ?thesis
    by (rule consumeConst_loop_sound [OF range_bounds loop assms(3)])
qed

lemma nMax_loop_res:
  "nMax_loop words s ns m0 = m0 \<or> fst (split s (int (nMax_loop words s ns m0))) \<in> set words"
proof (induction ns arbitrary: m0)
  case Nil
  show ?case by simp
next
  case (Cons n ns)
  show ?case
  proof (cases "fst (split s (int n)) \<in> set words")
    case True
    then have "nMax_loop words s (n # ns) m0 = nMax_loop words s ns n"
      by (simp add: case_prod_beta)
    then show ?thesis using Cons [of n] True by auto
  next
    case False
    then have "nMax_loop words s (n # ns) m0 = nMax_loop words s ns m0"
      by (simp add: case_prod_beta)
    then show ?thesis using Cons [of m0] by simp
  qed
qed

lemma consumeFunc_res:
  assumes "s \<noteq> []" and "consumeFunc self s = (f, t)" and "f \<noteq> []"
  shows "f \<in> set (map fst FUNCTIONS) \<and> f @ ''('' @ t = s"
proof -
  define words where "words = map (\<lambda>f. fst f @ ''('') FUNCTIONS"
  define m where "m = nMax_loop words s [1 ..< length s + 1] 0"
  obtain tmpHead tmpTail where sp: "split s (int m) = (tmpHead, tmpTail)"
    by (cases "split s (int m)")
  have res: "f = butlast tmpHead" "t = tmpTail"
    using assms(1,2) sp
    by (simp_all add: consumeFunc_def inputStr_of_nonempty m_def words_def Let_def del: upt_Suc)
  have "m = 0 \<or> fst (split s (int m)) \<in> set words"
    using nMax_loop_res [of words s "[1 ..< length s + 1]" 0] by (simp add: m_def)
  moreover have "m \<noteq> 0"
  proof
    assume "m = 0"
    then have "tmpHead = []" using sp assms(1) by (simp add: split_zero)
    then show False using res assms(3) by simp
  qed
  ultimately have "tmpHead \<in> set words"
    using sp by simp
  then obtain g where g: "g \<in> set (map fst FUNCTIONS)" "tmpHead = g @ ''(''"
    by (auto simp: words_def)
  then show ?thesis
    using res split_eqD [OF sp] by simp
qed

lemma consumeInfix_res:
  assumes "s \<noteq> []" and "consumeInfix self s = (i, t)" and "i \<noteq> []"
  shows "i \<in> set (map fst INFIX_OPS) \<and> i @ t = s"
proof -
  define m where "m = nMax_loop (map fst INFIX_OPS) s [1 ..< length s + 1] 0"
  have sp: "split s (int m) = (i, t)"
    using assms(1,2)
    by (simp add: consumeInfix_def inputStr_of_nonempty m_def Let_def del: upt_Suc)
  have "m = 0 \<or> fst (split s (int m)) \<in> set (map fst INFIX_OPS)"
    using nMax_loop_res [of "map fst INFIX_OPS" s "[1 ..< length s + 1]" 0] by (simp add: m_def)
  moreover have "m \<noteq> 0"
  proof
    assume "m = 0"
    then have "i = []" using sp assms(1) by (simp add: split_zero)
    then show False using assms(3) by simp
  qed
  ultimately show ?thesis
    using sp split_eqD [OF sp] by simp
qed

lemma Token_name: "Token x = Inr t \<Longrightarrow> name t = x"
  by (auto simp: Token_def split: if_splits sum.splits bool.splits)


lemma consumeVar_loop_res:
  assumes "1 \<le> k" and "k \<le> length s" and "\<forall>j<k. idchar (s ! j)"
    and "consumeVar_loop self s [k ..< length s + 1] = Inr (Some (h, t))"
  shows "h @ t = s \<and> (\<forall>c\<in>set h. idchar c) \<and> h \<noteq> []"
  using assms
proof (induction "length s - k" arbitrary: k)
  case 0
  then have k: "k = length s" by simp
  have upt: "[k ..< length s + 1] = k # [Suc k ..< length s + 1]"
    by (rule upt_conv_Cons) (simp add: k)
  have sp: "split s (int k) = (take k s, drop k s)"
    using split_take_drop [of k s] "0.prems" by simp
  have "h = s \<and> t = []"
    using "0.prems"(4) upt sp k by simp
  moreover have "\<forall>c\<in>set s. idchar c"
  proof
    fix c assume "c \<in> set s"
    then obtain j where "j < length s" "s ! j = c" by (auto simp: in_set_conv_nth)
    then show "idchar c" using "0.prems"(3) k by blast
  qed
  ultimately show ?case using "0.prems"(1) k by auto
next
  case (Suc d)
  then have lt: "k < length s" by simp
  have upt: "[k ..< length s + 1] = k # [Suc k ..< length s + 1]"
    by (rule upt_conv_Cons) (use lt in simp)
  have sp: "split s (int k) = (take k s, drop k s)"
    using split_take_drop [of k s] Suc.prems lt by simp
  have nxt: "drop k s ! 0 = s ! k"
    using lt by simp
  have pre: "\<forall>c\<in>set (take k s). idchar c"
  proof
    fix c assume "c \<in> set (take k s)"
    then obtain j where "j < k" "take k s ! j = c" using lt by (auto simp: in_set_conv_nth)
    then have "s ! j = c" by simp
    then show "idchar c" using Suc.prems(3) \<open>j < k\<close> by blast
  qed
  have here: "take k s @ drop k s = s \<and> (\<forall>c\<in>set (take k s). idchar c) \<and> take k s \<noteq> []"
    using pre Suc.prems(1) lt by auto
  have rec: "consumeVar_loop self s [Suc k ..< length s + 1] = Inr (Some (h, t))
      \<Longrightarrow> idchar (s ! k) \<Longrightarrow> ?case"
  proof -
    assume a: "consumeVar_loop self s [Suc k ..< length s + 1] = Inr (Some (h, t))" and b: "idchar (s ! k)"
    have "\<forall>j<Suc k. idchar (s ! j)"
      using Suc.prems(3) b by (auto simp: less_Suc_eq)
    then show ?case
      using Suc.hyps(1) [of "Suc k"] Suc.hyps(2) lt a by simp
  qed
  have unf: "consumeVar_loop self s (k # [Suc k ..< length s + 1]) = Inr (Some (h, t))"
    using Suc.prems(4) upt by simp
  show ?case
  proof (cases "isAlpha (s ! k) \<or> s ! k = CHR ''_''")
    case True
    then have "consumeVar_loop self s [Suc k ..< length s + 1] = Inr (Some (h, t))"
      using unf sp nxt lt by (simp add: Let_def)
    then show ?thesis using rec True by blast
  next
    case False
    show ?thesis
    proof (cases "isDigit (s ! k)")
      case dig: True
      obtain r where r: "consumeNumber self (drop k s) = r" by simp
      show ?thesis
      proof (cases r)
        case (Inl e)
        then show ?thesis using unf sp nxt lt False dig r by (simp add: Let_def)
      next
        case (Inr p)
        obtain nbr rest where p: "p = (nbr, rest)" by (cases p)
        show ?thesis
        proof (cases "CHR ''.'' \<in> set nbr")
          case True
          then have "h = take k s \<and> t = drop k s"
            using unf sp nxt lt False dig r Inr p by (simp add: Let_def)
          then show ?thesis using here by simp
        next
          case nodot: False
          then have "consumeVar_loop self s [Suc k ..< length s + 1] = Inr (Some (h, t))"
            using unf sp nxt lt False dig r Inr p by (simp add: Let_def)
          then show ?thesis using rec dig by blast
        qed
      qed
    next
      case nodig: False
      then have "h = take k s \<and> t = drop k s"
        using unf sp nxt lt False by (simp add: Let_def)
      then show ?thesis using here by simp
    qed
  qed
qed

lemma consumeVar_res:
  assumes "s \<noteq> []" and "consumeVar self s = Inr (v, t)" and "v \<noteq> []"
  shows "v @ t = s \<and> (\<forall>c\<in>set v. idchar c) \<and> v \<notin> set reservedNames"
proof (cases "isAlpha (s ! 0) \<or> s ! 0 = CHR ''_''")
  case False
  then show ?thesis
    using assms by (simp add: consumeVar_def inputStr_of_nonempty)
next
  case True
  obtain r where r: "consumeVar_loop self s [1 ..< length s + 1] = r" by simp
  have cv: "(case r of Inl e \<Rightarrow> Inl e | Inr None \<Rightarrow> Inl TypeError
      | Inr (Some (var, rest)) \<Rightarrow>
          if var \<notin> set reservedNames then Inr (var, rest) else Inr ([], s)) = Inr (v, t)"
    using assms(1,2) True r by (simp add: consumeVar_def inputStr_of_nonempty Let_def del: upt_Suc)
  then obtain h u where hu: "r = Inr (Some (h, u))"
    by (cases r) (auto split: option.splits)
  have res: "h \<notin> set reservedNames \<and> v = h \<and> t = u"
    using cv hu assms(3) by (auto split: if_splits)
  have "h @ u = s \<and> (\<forall>c\<in>set h. idchar c) \<and> h \<noteq> []"
  proof (rule consumeVar_loop_res [where k = 1 and self = self])
    show "1 \<le> (1::nat)" by simp
    show "1 \<le> length s" using assms(1) by (simp add: Suc_le_eq)
    show "\<forall>j<1. idchar (s ! j)" using True by auto
    show "consumeVar_loop self s [1 ..< length s + 1] = Inr (Some (h, u))"
      using r hu by simp
  qed
  then show ?thesis using res by simp
qed



lemma no_space_filter: "CHR '' '' \<notin> set h \<Longrightarrow> filter nonspace (h @ t) = h @ filter nonspace t"
  by (induction h) auto

lemma wholeWordI:
  "x @ t = s \<Longrightarrow> t = [] \<or> \<not> isAlpha (t ! 0) \<Longrightarrow> wholeWord s x"
  by (auto simp: wholeWord_def nth_append)

lemma reserved_alpha: "x \<in> set reservedNames \<Longrightarrow> x \<noteq> [] \<and> isAlpha (x ! 0)"
  by (auto simp: reservedNames_def CONSTANTS_names_def FUNCTIONS_def isAlpha_def)

lemma isDigit_not_alpha: "isDigit c \<Longrightarrow> \<not> isAlpha c"
  by (auto simp: isDigit_def isAlpha_def)

lemma number_not_reserved: "isNumber h \<Longrightarrow> h \<noteq> [] \<Longrightarrow> h \<notin> set reservedNames"
proof
  assume h: "isNumber h" "h \<noteq> []" and r: "h \<in> set reservedNames"
  have "isNumber_loop False h" using h by (auto simp: isNumber_def split: if_splits)
  then have "\<forall>c\<in>set h. isDigit c \<or> c = CHR ''.''" by (rule isNumber_loop_chars)
  moreover have "h ! 0 \<in> set h" using h(2) by simp
  ultimately have "isDigit (h ! 0) \<or> h ! 0 = CHR ''.''" by blast
  then have "\<not> isAlpha (h ! 0)"
    using isDigit_not_alpha by (auto simp: isAlpha_def)
  with reserved_alpha [OF r] show False by simp
qed

lemma infix_not_reserved: "i \<in> set (map fst INFIX_OPS) \<Longrightarrow> i \<notin> set reservedNames"
  by (auto simp: INFIX_OPS_def reservedNames_def CONSTANTS_names_def FUNCTIONS_def)

lemma tokenize_body_cases:
  fixes f :: "QParser \<Rightarrow> string \<Rightarrow> token list \<Rightarrow> (error + token list) option"
  assumes body: "
     (if length inputStr > 0 then
        (case consumeSpace self inputStr of
           None \<Rightarrow> Some (Inl TypeError)
         | Some (_, inputStr1) \<Rightarrow>
            if length inputStr1 = 0 then Some (Inr tokenList)
            else
              (case consumeNumber self inputStr1 of
                 Inl e \<Rightarrow> Some (Inl e)
               | Inr (number, tailNumber) \<Rightarrow>
              (case consumeConst self inputStr1 of (constant, tailConstant) \<Rightarrow>
              (case consumeFunc self inputStr1 of (function', tailFunction) \<Rightarrow>
              (case consumeVar self inputStr1 of
                 Inl e \<Rightarrow> Some (Inl e)
               | Inr (variable, tailVariable) \<Rightarrow>
              (case consumeInfix self inputStr1 of (infix', tailInfix) \<Rightarrow>
                 if number \<noteq> [] then
                   (case Token number of Inl e \<Rightarrow> Some (Inl e)
                    | Inr t \<Rightarrow> f self tailNumber (tokenList @ [t]))
                 else if constant \<noteq> [] then
                   (case Token constant of Inl e \<Rightarrow> Some (Inl e)
                    | Inr t \<Rightarrow> f self tailConstant (tokenList @ [t]))
                 else if function' \<noteq> [] then
                   (case Token function' of Inl e \<Rightarrow> Some (Inl e)
                    | Inr t \<Rightarrow>
                       (case Token ''('' of Inl e \<Rightarrow> Some (Inl e)
                        | Inr b \<Rightarrow> f self tailFunction (tokenList @ [t, b])))
                 else if variable \<noteq> [] then
                   (case Token variable of Inl e \<Rightarrow> Some (Inl e)
                    | Inr t \<Rightarrow> f self tailVariable (tokenList @ [t]))
                 else if infix' \<noteq> [] then
                   (case Token infix' of Inl e \<Rightarrow> Some (Inl e)
                    | Inr t \<Rightarrow> f self tailInfix (tokenList @ [t]))
                 else
                   (case pop inputStr1 of (head, tail) \<Rightarrow>
                      if head = ''('' \<or> head = '')'' \<or> head = '','' then
                        (case Token head of Inl e \<Rightarrow> Some (Inl e)
                         | Inr t \<Rightarrow> f self tail (tokenList @ [t]))
                      else f self inputStr1 tokenList)))))))
      else Some (Inr tokenList)) = Some (Inr toks)"
  shows "(toks = tokenList \<and> filter nonspace inputStr = [])
       \<or> (\<exists>new rest h0 s1. f self rest (tokenList @ new) = Some (Inr toks)
             \<and> filter nonspace inputStr = concat (map name new) @ filter nonspace rest
             \<and> consumeSpace self inputStr = Some (h0, s1)
             \<and> (if new = [] then rest = s1
                 else name (hd new) \<in> set reservedNames \<longrightarrow> wholeWord s1 (name (hd new))))"
proof (cases "inputStr = []")
  case True
  with body show ?thesis by simp
next
  case ne: False
  obtain h0 s1 where sp: "consumeSpace self inputStr = Some (h0, s1)"
    using body ne by (cases "consumeSpace self inputStr") auto
  have fs: "filter nonspace inputStr = filter nonspace s1"
    by (rule consumeSpace_filter [OF ne sp])
  show ?thesis
  proof (cases "s1 = []")
    case True
    with body ne sp fs show ?thesis by simp
  next
    case s1: False
    obtain number tailNumber where num: "consumeNumber self s1 = Inr (number, tailNumber)"
      using body ne sp s1 by (cases "consumeNumber self s1") auto
    obtain cst tailConstant where con: "consumeConst self s1 = (cst, tailConstant)"
      by (cases "consumeConst self s1")
    obtain function' tailFunction where fun': "consumeFunc self s1 = (function', tailFunction)"
      by (cases "consumeFunc self s1")
    obtain variable tailVariable where var: "consumeVar self s1 = Inr (variable, tailVariable)"
      using body ne sp s1 num con fun' by (cases "consumeVar self s1") auto
    obtain infix' tailInfix where inf: "consumeInfix self s1 = (infix', tailInfix)"
      by (cases "consumeInfix self s1")
    have chain: "(if number \<noteq> [] then
                   (case Token number of Inl e \<Rightarrow> Some (Inl e)
                    | Inr t \<Rightarrow> f self tailNumber (tokenList @ [t]))
                 else if cst \<noteq> [] then
                   (case Token cst of Inl e \<Rightarrow> Some (Inl e)
                    | Inr t \<Rightarrow> f self tailConstant (tokenList @ [t]))
                 else if function' \<noteq> [] then
                   (case Token function' of Inl e \<Rightarrow> Some (Inl e)
                    | Inr t \<Rightarrow>
                       (case Token ''('' of Inl e \<Rightarrow> Some (Inl e)
                        | Inr b \<Rightarrow> f self tailFunction (tokenList @ [t, b])))
                 else if variable \<noteq> [] then
                   (case Token variable of Inl e \<Rightarrow> Some (Inl e)
                    | Inr t \<Rightarrow> f self tailVariable (tokenList @ [t]))
                 else if infix' \<noteq> [] then
                   (case Token infix' of Inl e \<Rightarrow> Some (Inl e)
                    | Inr t \<Rightarrow> f self tailInfix (tokenList @ [t]))
                 else
                   (case pop s1 of (head, tail) \<Rightarrow>
                      if head = ''('' \<or> head = '')'' \<or> head = '','' then
                        (case Token head of Inl e \<Rightarrow> Some (Inl e)
                         | Inr t \<Rightarrow> f self tail (tokenList @ [t]))
                      else f self s1 tokenList)) = Some (Inr toks)"
      using body ne sp s1 num con fun' var inf by simp
    have one: "\<exists>new rest h0 s1. f self rest (tokenList @ new) = Some (Inr toks)
             \<and> filter nonspace inputStr = concat (map name new) @ filter nonspace rest
             \<and> consumeSpace self inputStr = Some (h0, s1)
             \<and> (if new = [] then rest = s1
                 else name (hd new) \<in> set reservedNames \<longrightarrow> wholeWord s1 (name (hd new)))"
      if "Token lexeme = Inr t" and "f self rest (tokenList @ [t]) = Some (Inr toks)"
        and "lexeme @ rest = s1" and "CHR '' '' \<notin> set lexeme"
        and "lexeme \<in> set reservedNames \<longrightarrow> wholeWord s1 lexeme" for lexeme t rest
    proof -
      have "filter nonspace inputStr = concat (map name [t]) @ filter nonspace rest"
        using fs that(3,4) Token_name [OF that(1)] no_space_filter [of lexeme rest] by simp
      moreover have "if [t] = [] then rest = s1
          else name (hd [t]) \<in> set reservedNames \<longrightarrow> wholeWord s1 (name (hd [t]))"
        using that(5) Token_name [OF that(1)] by simp
      ultimately show ?thesis using that(2) sp by blast
    qed
    consider (n) "number \<noteq> []"
      | (c) "number = []" "cst \<noteq> []"
      | (f) "number = []" "cst = []" "function' \<noteq> []"
      | (v) "number = []" "cst = []" "function' = []" "variable \<noteq> []"
      | (i) "number = []" "cst = []" "function' = []" "variable = []" "infix' \<noteq> []"
      | (p) "number = []" "cst = []" "function' = []" "variable = []" "infix' = []"
      by blast
    then have "\<exists>new rest h0 s1. f self rest (tokenList @ new) = Some (Inr toks)
             \<and> filter nonspace inputStr = concat (map name new) @ filter nonspace rest
             \<and> consumeSpace self inputStr = Some (h0, s1)
             \<and> (if new = [] then rest = s1
                 else name (hd new) \<in> set reservedNames \<longrightarrow> wholeWord s1 (name (hd new)))"
    proof cases
      case n
      then obtain t where t: "Token number = Inr t" "f self tailNumber (tokenList @ [t]) = Some (Inr toks)"
        using chain by (cases "Token number") auto
      have r: "number @ tailNumber = s1 \<and> CHR '' '' \<notin> set number \<and> isNumber number"
        using consumeNumber_res [OF s1 num] n by simp
      then have "number \<notin> set reservedNames"
        using number_not_reserved n by blast
      with r show ?thesis
        by (intro one [OF t]) simp_all
    next
      case c
      then obtain t where t: "Token cst = Inr t" "f self tailConstant (tokenList @ [t]) = Some (Inr toks)"
        using chain by (cases "Token cst") auto
      have r: "cst \<in> set CONSTANTS_names \<and> cst @ tailConstant = s1
          \<and> (tailConstant = [] \<or> \<not> isAlpha (tailConstant ! 0))"
        using consumeConst_sound [OF s1 con c(2)] by blast
      then have "CHR '' '' \<notin> set cst"
        using constant_chars [of cst] isAlpha_nonspace by blast
      moreover have "wholeWord s1 cst"
        using r by (intro wholeWordI [of cst tailConstant]) simp_all
      ultimately show ?thesis
        using r by (intro one [OF t]) simp_all
    next
      case f
      then obtain t where t: "Token function' = Inr t"
          and rest: "(case Token ''('' of Inl e \<Rightarrow> Some (Inl e)
                        | Inr b \<Rightarrow> f self tailFunction (tokenList @ [t, b])) = Some (Inr toks)"
        using chain by (cases "Token function'") auto
      then obtain b where b: "Token ''('' = Inr b" "f self tailFunction (tokenList @ [t, b]) = Some (Inr toks)"
        by (cases "Token ''(''") auto
      have r: "function' \<in> set (map fst FUNCTIONS) \<and> function' @ ''('' @ tailFunction = s1"
        by (rule consumeFunc_res [OF s1 fun' f(3)])
      then have nsp: "CHR '' '' \<notin> set function'"
        using function_chars [of function'] isAlpha_nonspace isDigit_nonspace by blast
      have "filter nonspace s1 = function' @ ''('' @ filter nonspace tailFunction"
        using r no_space_filter [OF nsp, of "''('' @ tailFunction"] by simp
      then have "filter nonspace inputStr = concat (map name [t, b]) @ filter nonspace tailFunction"
        using fs Token_name [OF t] Token_name [OF b(1)] by simp
      moreover have "wholeWord s1 function'"
        using r by (intro wholeWordI [of function' "''('' @ tailFunction"]) (simp_all add: isAlpha_def)
      then have "if [t, b] = [] then tailFunction = s1
          else name (hd [t, b]) \<in> set reservedNames \<longrightarrow> wholeWord s1 (name (hd [t, b]))"
        using Token_name [OF t] by simp
      ultimately show ?thesis using b(2) sp by blast
    next
      case v
      then obtain t where t: "Token variable = Inr t" "f self tailVariable (tokenList @ [t]) = Some (Inr toks)"
        using chain by (cases "Token variable") auto
      have r: "variable @ tailVariable = s1 \<and> (\<forall>c\<in>set variable. idchar c)
          \<and> variable \<notin> set reservedNames"
        using consumeVar_res [OF s1 var v(4)] by simp
      then have "CHR '' '' \<notin> set variable"
        using isAlpha_nonspace isDigit_nonspace by blast
      with r show ?thesis
        by (intro one [OF t]) simp_all
    next
      case i
      then obtain t where t: "Token infix' = Inr t" "f self tailInfix (tokenList @ [t]) = Some (Inr toks)"
        using chain by (cases "Token infix'") auto
      have r: "infix' \<in> set (map fst INFIX_OPS) \<and> infix' @ tailInfix = s1"
        by (rule consumeInfix_res [OF s1 inf i(5)])
      then have "CHR '' '' \<notin> set infix'"
        using infix_chars [of infix'] by blast
      moreover have "infix' \<notin> set reservedNames"
        using r infix_not_reserved by blast
      ultimately show ?thesis
        using r by (intro one [OF t]) simp_all
    next
      case p
      obtain head tail where pp: "pop s1 = (head, tail)" by (cases "pop s1")
      have ht: "head @ tail = s1" using pop_concat [of s1] pp by simp
      show ?thesis
      proof (cases "head = ''('' \<or> head = '')'' \<or> head = '',''")
        case True
        then obtain t where t: "Token head = Inr t" "f self tail (tokenList @ [t]) = Some (Inr toks)"
          using chain p pp by (cases "Token head") auto
        have "CHR '' '' \<notin> set head" using True by auto
        moreover have "head \<notin> set reservedNames"
          using True by (auto simp: reservedNames_def CONSTANTS_names_def FUNCTIONS_def)
        ultimately show ?thesis
          using ht by (intro one [OF t]) simp_all
      next
        case False
        then have "f self s1 (tokenList @ []) = Some (Inr toks)"
          using chain p pp by simp
        moreover have "filter nonspace inputStr = concat (map name []) @ filter nonspace s1"
          using fs by simp
        moreover have "if ([]::token list) = [] then s1 = s1
            else name (hd []) \<in> set reservedNames \<longrightarrow> wholeWord s1 (name (hd []))"
          by simp
        ultimately show ?thesis using sp by blast
      qed
    qed
    then show ?thesis by simp
  qed
qed


lemma tokenize_loop_round_trip:
  assumes "tokenize_loop self s acc = Some y"
  shows "\<forall>toks. y = Inr toks \<longrightarrow> concat (map name toks) = concat (map name acc) @ filter nonspace s"
proof (rule tokenize_loop.raw_induct
    [where P = "\<lambda>self s acc y. \<forall>toks. y = Inr toks \<longrightarrow>
        concat (map name toks) = concat (map name acc) @ filter nonspace s", OF _ assms], goal_cases)
  case (1 loop self inputStr tokenList y)
  show ?case
  proof (intro allI impI)
    fix toks assume y: "y = Inr toks"
    from tokenize_body_cases [where f = loop and self = self and inputStr = inputStr
        and tokenList = tokenList and toks = toks, OF 1(2) [unfolded y]]
    consider "toks = tokenList \<and> filter nonspace inputStr = []"
      | new rest where "loop self rest (tokenList @ new) = Some (Inr toks)"
          "filter nonspace inputStr = concat (map name new) @ filter nonspace rest"
      by auto
    then show "concat (map name toks) = concat (map name tokenList) @ filter nonspace inputStr"
    proof cases
      case 1
      then show ?thesis by simp
    next
      case 2
      from 1(1) [OF 2(1)] 2(2) show ?thesis by simp
    qed
  qed
qed

text \<open>
  Claim C7, as stated: \<open>tokenize\<close> succeeds on every input, and the names of its tokens,
  the open bracket re-inserted after a function name left out, make up the input without
  its spaces.  On \<open>sin(x)\<close> the tokens are \<open>sin\<close>, \<open>(\<close>, \<open>x\<close>, \<open>)\<close>: without the bracket
  their text is \<open>sinx)\<close>.  On \<open>1\<close> followed by a space \<open>tokenize\<close> raises.
\<close>

theorem tokenize_round_trip_counterexample:
  "tokenize emptyParser ''sin(x)''
     = Some (Inr [tk ''FUNCTION'' ''sin'', tk ''BRKT_OPEN'' ''('', tk ''VAR'' ''x'', tk ''BRKT_CLOSE'' '')''])
   \<and> literalText_without_bracket
        [tk ''FUNCTION'' ''sin'', tk ''BRKT_OPEN'' ''('', tk ''VAR'' ''x'', tk ''BRKT_CLOSE'' '')'']
       \<noteq> filter (\<lambda>c. c \<noteq> CHR '' '') ''sin(x)''
   \<and> tokenize emptyParser ''1 '' = Some (Inl TypeError)"
  by (simp add: lexer_eval)

text \<open>
  Claim C7, amended: whenever \<open>tokenize\<close> returns a token list, the names of all its
  tokens, the re-inserted open bracket included, make up the string it read with the
  spaces removed.
\<close>

theorem tokenize_round_trip:
  "tokenize self s = Some (Inr toks)
   \<Longrightarrow> literalText toks = filter (\<lambda>c. c \<noteq> CHR '' '') (inputStr_of self s)"
  using tokenize_loop_round_trip [of self "inputStr_of self s" "[]" "Inr toks"]
  by (simp add: tokenize_def literalText_def)

theorem tokenize_round_trip_witness:
  "tokenize emptyParser ''sin( x) + 2pi''
     = Some (Inr [tk ''FUNCTION'' ''sin'', tk ''BRKT_OPEN'' ''('', tk ''VAR'' ''x'', tk ''BRKT_CLOSE'' '')'',
                  tk ''INFIX'' ''+'', tk ''NUMBER'' ''2'', tk ''CONSTANT'' ''pi''])
   \<and> literalText [tk ''FUNCTION'' ''sin'', tk ''BRKT_OPEN'' ''('', tk ''VAR'' ''x'', tk ''BRKT_CLOSE'' '')'',
                  tk ''INFIX'' ''+'', tk ''NUMBER'' ''2'', tk ''CONSTANT'' ''pi'']
       = ''sin(x)+2pi''"
  using tokenize_round_trip [of emptyParser "''sin( x) + 2pi''"
      "[tk ''FUNCTION'' ''sin'', tk ''BRKT_OPEN'' ''('', tk ''VAR'' ''x'', tk ''BRKT_CLOSE'' '')'',
        tk ''INFIX'' ''+'', tk ''NUMBER'' ''2'', tk ''CONSTANT'' ''pi'']"]
  by (simp add: lexer_eval)

section \<open>Constants and reserved words in the lexer\<close>

text \<open>
  The loop of \<open>consumeConst\<close> on a constant \<open>c\<close> followed by \<open>rest\<close>: every shorter prefix
  that is a constant is followed by a letter of \<open>c\<close>, so the loop reaches the index
  \<open>length c\<close>, where the character after \<open>c\<close> decides.
\<close>

lemma consumeConst_loop_reach:
  assumes c: "c \<in> set CONSTANTS_names" and s: "s = c @ rest"
    and k: "1 \<le> k" "k \<le> length c"
  shows "consumeConst_loop s [k ..< length s + 1] = consumeConst_loop s [length c ..< length s + 1]"
  using k
proof (induction "length c - k" arbitrary: k)
  case 0
  then show ?case by simp
next
  case (Suc d)
  then have lt: "k < length c" by simp
  have upt: "[k ..< length s + 1] = k # [Suc k ..< length s + 1]"
    by (rule upt_conv_Cons) (use lt s in simp)
  have sp: "split s (int k) = (take k s, drop k s)"
    using split_take_drop [of k s] Suc.prems lt s by simp
  have nxt: "drop k s ! 0 = c ! k"
    using lt s by (simp add: nth_append)
  have "c ! k \<in> set c" using lt by simp
  then have al: "isAlpha (c ! k)"
    using constant_chars [OF c] by blast
  then have "c ! k \<noteq> CHR ''_''"
    by (rule isAlpha_not_underscore)
  with al have "consumeConst_loop s (k # [Suc k ..< length s + 1])
      = consumeConst_loop s [Suc k ..< length s + 1]"
    using sp nxt lt s by (simp add: Let_def)
  moreover have "consumeConst_loop s [Suc k ..< length s + 1]
      = consumeConst_loop s [length c ..< length s + 1]"
    using Suc.hyps(1) [of "Suc k"] Suc.hyps(2) lt by simp
  ultimately show ?case using upt by simp
qed

lemma consumeConst_at_constant:
  assumes c: "c \<in> set CONSTANTS_names"
  shows "consumeConst self (c @ rest) =
     (if rest = [] then (c, [])
      else if rest ! 0 = CHR ''_'' then ([], c @ rest)
      else if isAlpha (rest ! 0)
        then consumeConst_loop (c @ rest) [Suc (length c) ..< length (c @ rest) + 1]
      else (c, rest))"
proof -
  define s where "s = c @ rest"
  have c0: "c \<noteq> []" using constant_chars [OF c] by simp
  then have k: "1 \<le> length c" by (simp add: Suc_le_eq)
  have upt: "[length c ..< length s + 1] = length c # [Suc (length c) ..< length s + 1]"
    by (rule upt_conv_Cons) (simp add: s_def)
  have sp: "split s (int (length c)) = (c, rest)"
    using split_take_drop [of "length c" s] c0 by (simp add: s_def)
  have "consumeConst self s = consumeConst_loop s [1 ..< length s + 1]"
    using c0 by (simp add: consumeConst_def inputStr_of_def s_def Let_def del: upt_Suc)
  also have "\<dots> = consumeConst_loop s [length c ..< length s + 1]"
    by (rule consumeConst_loop_reach [OF c s_def order_refl k])
  also have "\<dots> = consumeConst_loop s (length c # [Suc (length c) ..< length s + 1])"
    using upt by simp
  also have "\<dots> = (if rest = [] then (c, [])
      else if rest ! 0 = CHR ''_'' then ([], s)
      else if isAlpha (rest ! 0) then consumeConst_loop s [Suc (length c) ..< length s + 1]
      else (c, rest))"
    using sp c by (auto simp: s_def simp del: upt_Suc)
  finally show ?thesis by (simp add: s_def del: upt_Suc)
qed

lemma consumeSpace_nonspace:
  assumes "s \<noteq> []" and "nonspace (s ! 0)"
  shows "consumeSpace self s = Some ([], s)"
proof -
  have "[0 ..< length s] = 0 # [1 ..< length s]"
    using assms(1) by (simp add: upt_conv_Cons)
  then show ?thesis
    using assms by (simp add: consumeSpace_def inputStr_of_nonempty split_zero)
qed

lemma tokenize_loop_first:
  assumes "tokenize_loop self s acc = Some y"
  shows "\<forall>toks. y = Inr toks \<longrightarrow>
           (\<exists>ext. toks = acc @ ext)
           \<and> (acc = [] \<and> s \<noteq> [] \<and> nonspace (s ! 0) \<longrightarrow>
                toks \<noteq> [] \<and> (name (hd toks) \<in> set reservedNames \<longrightarrow> wholeWord s (name (hd toks))))"
proof (rule tokenize_loop.raw_induct
    [where P = "\<lambda>self s acc y. \<forall>toks. y = Inr toks \<longrightarrow>
           (\<exists>ext. toks = acc @ ext)
           \<and> (acc = [] \<and> s \<noteq> [] \<and> nonspace (s ! 0) \<longrightarrow>
                toks \<noteq> [] \<and> (name (hd toks) \<in> set reservedNames \<longrightarrow> wholeWord s (name (hd toks))))",
     OF _ assms], goal_cases)
  case (1 loop self inputStr tokenList y)
  show ?case
  proof (intro allI impI)
    fix toks assume y: "y = Inr toks"
    from tokenize_body_cases [where f = loop and self = self and inputStr = inputStr
        and tokenList = tokenList and toks = toks, OF 1(2) [unfolded y]]
    consider "toks = tokenList \<and> filter nonspace inputStr = []"
      | new rest h0 s1 where "loop self rest (tokenList @ new) = Some (Inr toks)"
          "consumeSpace self inputStr = Some (h0, s1)"
          "if new = [] then rest = s1
           else name (hd new) \<in> set reservedNames \<longrightarrow> wholeWord s1 (name (hd new))"
      by auto
    then show "(\<exists>ext. toks = tokenList @ ext)
           \<and> (tokenList = [] \<and> inputStr \<noteq> [] \<and> nonspace (inputStr ! 0) \<longrightarrow>
                toks \<noteq> [] \<and> (name (hd toks) \<in> set reservedNames \<longrightarrow> wholeWord inputStr (name (hd toks))))"
    proof cases
      case 1
      have "filter nonspace inputStr \<noteq> []" if "inputStr \<noteq> []" "nonspace (inputStr ! 0)"
        using that by (cases inputStr) auto
      with 1 show ?thesis by auto
    next
      case 2
      from 1(1) [OF 2(1)] have ih: "(\<exists>ext. toks = (tokenList @ new) @ ext)
           \<and> (tokenList @ new = [] \<and> rest \<noteq> [] \<and> nonspace (rest ! 0) \<longrightarrow>
                toks \<noteq> [] \<and> (name (hd toks) \<in> set reservedNames \<longrightarrow> wholeWord rest (name (hd toks))))"
        by simp
      then obtain ext where ext: "toks = tokenList @ new @ ext" by auto
      have "toks \<noteq> [] \<and> (name (hd toks) \<in> set reservedNames \<longrightarrow> wholeWord inputStr (name (hd toks)))"
        if a: "tokenList = []" "inputStr \<noteq> []" "nonspace (inputStr ! 0)"
      proof -
        have s1: "s1 = inputStr"
          using consumeSpace_nonspace [OF a(2,3), of self] 2(2) by simp
        show ?thesis
        proof (cases "new = []")
          case True
          then have "rest = inputStr" using 2(3) s1 by simp
          with ih a True show ?thesis by simp
        next
          case False
          then have "hd toks = hd new" "toks \<noteq> []" using ext a(1) by simp_all
          with 2(3) False s1 show ?thesis by simp
        qed
      qed
      with ext show ?thesis by blast
    qed
  qed
qed


text \<open>
  Claim C5, as stated: a constant followed by a digit, as in \<open>pi3\<close>, is rejected as a
  constant.  \<open>consumeConst\<close> returns \<open>pi\<close> and \<open>3\<close> there, as its unit test asks, and
  \<open>tokenize\<close> reads the constant \<open>pi\<close> and the number \<open>3\<close>.
\<close>

theorem constant_before_digit_counterexample:
  "consumeConst emptyParser ''pi3'' = (''pi'', ''3'')
   \<and> isDigit (CHR ''3'')
   \<and> tokenize emptyParser ''pi3'' = Some (Inr [tk ''CONSTANT'' ''pi'', tk ''NUMBER'' ''3''])"
  by (simp add: lexer_eval)

text \<open>
  Claim C5, amended.  \<open>consumeConst\<close> returns a constant that starts its input exactly
  when nothing follows it, or a character that is neither a letter nor an underscore (a
  digit does not reject it); followed by an underscore no constant at all is returned.
  Whenever \<open>tokenize\<close> returns on a reserved name extended with a letter, its first
  token does not carry that name: \<open>pixel\<close> is one variable token.
\<close>

theorem constant_accepted_unless_letter_or_underscore:
  "(c \<in> set CONSTANTS_names \<longrightarrow>
      (consumeConst self (c @ rest) = (c, rest))
        = (rest = [] \<or> (\<not> isAlpha (rest ! 0) \<and> rest ! 0 \<noteq> CHR ''_'')))
   \<and> (c \<in> set CONSTANTS_names \<and> rest \<noteq> [] \<and> rest ! 0 = CHR ''_'' \<longrightarrow>
        consumeConst self (c @ rest) = ([], c @ rest))
   \<and> (w \<in> set reservedNames \<and> isAlpha ch \<and> tokenize self (w @ ch # ext) = Some (Inr toks) \<longrightarrow>
        toks \<noteq> [] \<and> name (hd toks) \<noteq> w)
   \<and> tokenize self ''pixel'' = Some (Inr [tk ''VAR'' ''pixel''])
   \<and> tokenize self ''pi3'' = Some (Inr [tk ''CONSTANT'' ''pi'', tk ''NUMBER'' ''3''])"
proof (intro conjI impI)
  assume c: "c \<in> set CONSTANTS_names"
  have c0: "c \<noteq> []" using constant_chars [OF c] by simp
  show "(consumeConst self (c @ rest) = (c, rest))
        = (rest = [] \<or> (\<not> isAlpha (rest ! 0) \<and> rest ! 0 \<noteq> CHR ''_''))"
  proof
    assume "consumeConst self (c @ rest) = (c, rest)"
    from consumeConst_sound [OF _ this c0] c0
    show "rest = [] \<or> (\<not> isAlpha (rest ! 0) \<and> rest ! 0 \<noteq> CHR ''_'')" by simp
  next
    assume "rest = [] \<or> (\<not> isAlpha (rest ! 0) \<and> rest ! 0 \<noteq> CHR ''_'')"
    then show "consumeConst self (c @ rest) = (c, rest)"
      by (auto simp: consumeConst_at_constant [OF c] simp del: upt_Suc)
  qed
next
  assume "c \<in> set CONSTANTS_names \<and> rest \<noteq> [] \<and> rest ! 0 = CHR ''_''"
  then show "consumeConst self (c @ rest) = ([], c @ rest)"
    by (simp add: consumeConst_at_constant del: upt_Suc)
next
  assume a: "w \<in> set reservedNames \<and> isAlpha ch \<and> tokenize self (w @ ch # ext) = Some (Inr toks)"
  define s where "s = w @ ch # ext"
  have w: "w \<noteq> [] \<and> isAlpha (w ! 0)" using a reserved_alpha by blast
  then have s0: "s \<noteq> []" "nonspace (s ! 0)"
    using isAlpha_nonspace [of "w ! 0"] by (auto simp: s_def nth_append)
  have "tokenize_loop self s [] = Some (Inr toks)"
    using a s0 by (simp add: tokenize_def inputStr_of_def s_def)
  from tokenize_loop_first [OF this] s0
  have first: "toks \<noteq> [] \<and> (name (hd toks) \<in> set reservedNames \<longrightarrow> wholeWord s (name (hd toks)))"
    by simp
  then show "toks \<noteq> []" by simp
  show "name (hd toks) \<noteq> w"
  proof
    assume "name (hd toks) = w"
    with first a have "wholeWord s w" by simp
    then have "\<not> isAlpha (s ! length w)"
      by (simp add: wholeWord_def s_def)
    then show False using a by (simp add: s_def)
  qed
next
  show "tokenize self ''pixel'' = Some (Inr [tk ''VAR'' ''pixel''])"
    by (simp add: lexer_eval)
next
  show "tokenize self ''pi3'' = Some (Inr [tk ''CONSTANT'' ''pi'', tk ''NUMBER'' ''3''])"
    by (simp add: lexer_eval)
qed

theorem constant_accepted_unless_letter_or_underscore_witness:
  "''pi'' \<in> set CONSTANTS_names
   \<and> consumeConst emptyParser ''pi*r'' = (''pi'', ''*r'')
   \<and> consumeConst emptyParser ''pir'' \<noteq> (''pi'', ''r'')
   \<and> consumeConst emptyParser ''pi_3'' = ([], ''pi_3'')
   \<and> ''pi'' \<in> set reservedNames \<and> isAlpha (CHR ''x'')
   \<and> tokenize emptyParser ''pixel'' = Some (Inr [tk ''VAR'' ''pixel''])
   \<and> name (hd [tk ''VAR'' ''pixel'']) \<noteq> ''pi''"
  using constant_accepted_unless_letter_or_underscore
          [of "''pi''" emptyParser "''*r''" "''pi''" "CHR ''x''" "''el''" "[tk ''VAR'' ''pixel'']"]
        constant_accepted_unless_letter_or_underscore
          [of "''pi''" emptyParser "''r''" "''pi''" "CHR ''x''" "''el''" "[tk ''VAR'' ''pixel'']"]
        constant_accepted_unless_letter_or_underscore
          [of "''pi''" emptyParser "''_3''" "''pi''" "CHR ''x''" "''el''" "[tk ''VAR'' ''pixel'']"]
  by (simp add: CONSTANTS_names_def reservedNames_def isAlpha_def)

section \<open>Nesting by priority\<close>

text \<open>
  One iteration of the loop of \<open>nest\<close> on an alternating stack: \<open>_splitOp\<close> computes the
  array \<open>marks\<close>, cuts the stack into the runs of equal marks, and the merge makes the
  stack \<open>collapse\<close>; the infix nodes of highest priority disappear into \<open>Macroleaf\<close> nodes,
  the other infix nodes stay, and the stack is alternating again.
\<close>

lemma splitOp_mark_spec:
  assumes "length m0 = L"
    and "\<forall>(i, e) \<in> set ies. isTop prio e \<longrightarrow> 0 < i \<and> i + 1 < L"
  shows "\<exists>m'. splitOp_mark prio ies m0 = Inr m' \<and> length m' = L
           \<and> (\<forall>j<L. m' ! j = (m0 ! j \<or> (\<exists>(i, e) \<in> set ies. isTop prio e \<and> (j + 1 = i \<or> j = i \<or> j = i + 1))))"
  using assms
proof (induction ies arbitrary: m0)
  case Nil
  then show ?case by simp
next
  case (Cons ie ies)
  obtain n e where ie: "ie = (n, e)" by (cases ie)
  show ?case
  proof (cases "isTop prio e")
    case False
    then have "splitOp_mark prio (ie # ies) m0 = splitOp_mark prio ies m0"
      using ie by (auto simp: isTop_def)
    moreover from Cons.IH [of m0] Cons.prems
    obtain m' where "splitOp_mark prio ies m0 = Inr m'" "length m' = L"
      "\<forall>j<L. m' ! j = (m0 ! j \<or> (\<exists>(i, e) \<in> set ies. isTop prio e \<and> (j + 1 = i \<or> j = i \<or> j = i + 1)))"
      by auto
    ultimately show ?thesis using False ie by auto
  next
    case True
    then have n: "0 < n" "n + 1 < L" using Cons.prems(2) ie by auto
    define m1 where "m1 = m0[n - 1 := True, n := True, n + 1 := True]"
    have len: "length m1 = L" using Cons.prems(1) by (simp add: m1_def)
    have "splitOp_mark prio (ie # ies) m0 = splitOp_mark prio ies m1"
      using ie True n Cons.prems(1) by (simp add: isTop_def m1_def Let_def)
    moreover from Cons.IH [of m1] Cons.prems len
    obtain m' where m': "splitOp_mark prio ies m1 = Inr m'" "length m' = L"
      "\<forall>j<L. m' ! j = (m1 ! j \<or> (\<exists>(i, e) \<in> set ies. isTop prio e \<and> (j + 1 = i \<or> j = i \<or> j = i + 1)))"
      by auto
    moreover have "m1 ! j = (m0 ! j \<or> j + 1 = n \<or> j = n \<or> j = n + 1)" if "j < L" for j
      using that n Cons.prems(1) by (auto simp: m1_def nth_list_update)
    ultimately show ?thesis using True ie by auto
  qed
qed

lemma splitOp_cut_runs:
  assumes "length m = length toks" and "0 < n" and "n < length toks"
  shows "splitOp_cut toks m [n ..< length toks] tmp co ci =
           (co @ map snd (runsFrom (m ! (n - 1)) tmp (drop n (zip m toks))),
            ci @ map fst (runsFrom (m ! (n - 1)) tmp (drop n (zip m toks))))"
  using assms(2,3)
proof (induction "length toks - n" arbitrary: n tmp co ci)
  case 0
  then show ?case by simp
next
  case (Suc d)
  have upt: "[n ..< length toks] = n # [Suc n ..< length toks]"
    using Suc.prems by (simp add: upt_conv_Cons)
  have dr: "drop n (zip m toks) = (m ! n, toks ! n) # drop (Suc n) (zip m toks)"
    using Suc.prems assms(1) by (simp add: Cons_nth_drop_Suc [symmetric])
  show ?case
  proof (cases "n = length toks - 1")
    case True
    then have e: "[Suc n ..< length toks] = []" "drop (Suc n) (zip m toks) = []"
      using Suc.prems assms(1) by simp_all
    show ?thesis
      unfolding upt dr e using True Suc.prems by (auto simp: Let_def)
  next
    case False
    then have lt: "Suc n < length toks" using Suc.prems by simp
    have d: "d = length toks - Suc n" using Suc.hyps(2) by simp
    note ih = Suc.hyps(1) [OF d _ lt, simplified]
    show ?thesis
      unfolding upt dr using False Suc.prems ih by (auto simp: Let_def)
  qed
qed

lemma mergeChunks_render:
  "k \<le> length R \<Longrightarrow>
   mergeChunks (map snd R) (map fst R) [k ..< length R] acc = acc @ concat (map render (drop k R))"
proof (induction "length R - k" arbitrary: k acc)
  case 0
  then show ?case by simp
next
  case (Suc d)
  then have lt: "k < length R" by simp
  have upt: "[k ..< length R] = k # [Suc k ..< length R]"
    using lt by (simp add: upt_conv_Cons)
  have dr: "drop k R = R ! k # drop (Suc k) R"
    using lt by (simp add: Cons_nth_drop_Suc)
  have d: "d = length R - Suc k" using Suc.hyps(2) by simp
  have le: "Suc k \<le> length R" using lt by simp
  show ?case
    unfolding upt dr using lt Suc.hyps(1) [OF d le] by (simp add: render_def)
qed

lemma render_runsFrom:
  "concat (map render (runsFrom b tmp rest)) =
     (if b then newMacroleaf ''id'' (tmp @ map snd (takeWhile fst rest)) # collapse (dropWhile fst rest)
      else tmp @ collapse rest)"
proof (induction rest arbitrary: b tmp)
  case Nil
  show ?case by (simp add: render_def)
next
  case (Cons bx rest)
  obtain b' x where bx: "bx = (b', x)" by (cases bx)
  show ?case
    unfolding bx using Cons.IH [of b "tmp @ [x]"] Cons.IH [of b' "[x]"]
    by (cases b; cases b') (simp_all add: render_def)
qed

lemma runsFrom_nonempty: "runsFrom b tmp rest \<noteq> []"
  by (induction rest arbitrary: b tmp) (auto split: if_splits)

lemma ex_enumerate:
  "(\<exists>(i, e) \<in> set (enumerate 0 xs). P i e) = (\<exists>i<length xs. P i (xs ! i))"
proof
  assume "\<exists>(i, e) \<in> set (enumerate 0 xs). P i e"
  then obtain i e where "(i, e) \<in> set (enumerate 0 xs)" "P i e" by auto
  then show "\<exists>i<length xs. P i (xs ! i)" by (auto simp: in_set_enumerate_eq)
next
  assume "\<exists>i<length xs. P i (xs ! i)"
  then obtain i where i: "i < length xs" "P i (xs ! i)" by auto
  then have "(i, xs ! i) \<in> set (enumerate 0 xs)" by (simp add: in_set_enumerate_eq)
  with i(2) show "\<exists>(i, e) \<in> set (enumerate 0 xs). P i e" by blast
qed

lemma runsFrom_many:
  "(b', x) \<in> set rest \<Longrightarrow> b' \<noteq> b \<Longrightarrow> 1 < length (runsFrom b tmp rest)"
proof (induction rest arbitrary: b tmp)
  case Nil
  then show ?case by simp
next
  case (Cons cy rest)
  obtain c y where cy: "cy = (c, y)" by (cases cy)
  have ne: "runsFrom c [y] rest \<noteq> []"
    by (rule runsFrom_nonempty)
  show ?case
  proof (cases "c = b")
    case True
    then have "(b', x) \<in> set rest" using Cons.prems cy by auto
    from Cons.IH [OF this Cons.prems(2)] True cy show ?thesis by simp
  next
    case False
    then show ?thesis using cy ne by (cases "runsFrom c [y] rest") auto
  qed
qed

lemma splitOp_mark_marks:
  assumes "\<forall>i<length stack. isTop prio (stack ! i) \<longrightarrow> 0 < i \<and> i + 1 < length stack"
  shows "splitOp_mark prio (enumerate 0 stack) (replicate (length stack) False) = Inr (marks prio stack)"
proof -
  let ?L = "length stack"
  have a: "\<forall>(i, e) \<in> set (enumerate 0 stack). isTop prio e \<longrightarrow> 0 < i \<and> i + 1 < ?L"
    using assms by (auto simp: in_set_enumerate_eq)
  from splitOp_mark_spec [of "replicate ?L False" ?L "enumerate 0 stack" prio, OF _ a]
  obtain m' where m': "splitOp_mark prio (enumerate 0 stack) (replicate ?L False) = Inr m'"
    "length m' = ?L"
    "\<forall>j<?L. m' ! j = (replicate ?L False ! j
        \<or> (\<exists>(i, e) \<in> set (enumerate 0 stack). isTop prio e \<and> (j + 1 = i \<or> j = i \<or> j = i + 1)))"
    by auto
  have "m' = marks prio stack"
  proof (rule nth_equalityI)
    show "length m' = length (marks prio stack)" using m'(2) by (simp add: marks_def)
  next
    fix j assume "j < length m'"
    then have j: "j < ?L" using m'(2) by simp
    have "m' ! j = (\<exists>i<?L. isTop prio (stack ! i) \<and> (j + 1 = i \<or> j = i \<or> j = i + 1))"
      using m'(3) j
        ex_enumerate [where P = "\<lambda>i e. isTop prio e \<and> (j + 1 = i \<or> j = i \<or> j = i + 1)" and xs = stack]
      by simp
    also have "\<dots> = (isTop prio (stack ! j)
              \<or> (0 < j \<and> isTop prio (stack ! (j - 1)))
              \<or> (j + 1 < ?L \<and> isTop prio (stack ! (j + 1))))"
      (is "?lhs = ?rhs")
    proof
      assume ?lhs
      then obtain i where i: "i < ?L" "isTop prio (stack ! i)" "j + 1 = i \<or> j = i \<or> j = i + 1"
        by blast
      from i(3) consider "i = j + 1" | "i = j" | "j = i + 1" by blast
      then show ?rhs
      proof cases
        case 1
        with i(1,2) show ?thesis by simp
      next
        case 2
        with i(2) show ?thesis by simp
      next
        case 3
        then have "0 < j" "j - 1 = i" by simp_all
        with i(2) show ?thesis by simp
      qed
    next
      assume ?rhs
      then consider "isTop prio (stack ! j)" | "0 < j" "isTop prio (stack ! (j - 1))"
        | "j + 1 < ?L" "isTop prio (stack ! (j + 1))" by blast
      then show ?lhs
      proof cases
        case 1
        with j show ?thesis by (intro exI [of _ j]) simp
      next
        case 2
        with j show ?thesis by (intro exI [of _ "j - 1"]) simp
      next
        case 3
        then show ?thesis by (intro exI [of _ "j + 1"]) simp
      qed
    qed
    finally show "m' ! j = marks prio stack ! j"
      using j by (simp add: marks_def)
  qed
  with m'(1) show ?thesis by simp
qed

lemma length_marks [simp]: "length (marks prio stack) = length stack"
  by (simp add: marks_def)

lemma zip_head:
  "0 < length xs \<Longrightarrow> length ys = length xs
   \<Longrightarrow> zip xs ys = (xs ! 0, ys ! 0) # drop (Suc 0) (zip xs ys)"
  by (cases xs; cases ys) simp_all

lemma nest_step_collapse:
  assumes edge: "\<forall>i<length stack. isTop prio (stack ! i) \<longrightarrow> 0 < i \<and> i + 1 < length stack"
    and j: "j < length stack" "marks prio stack ! j \<noteq> marks prio stack ! 0"
  shows "nest_step stack prio = Inr (collapse (zip (marks prio stack) stack))"
proof -
  let ?m = "marks prio stack"
  let ?L = "length stack"
  let ?R = "runsFrom (?m ! 0) [stack ! 0] (drop (Suc 0) (zip ?m stack))"
  have j0: "0 < j" using j(2) by (cases j) auto
  then have L: "1 < ?L" using j(1) by simp
  have upt: "[0 ..< ?L] = 0 # [Suc 0 ..< ?L]"
    by (rule upt_conv_Cons) (use L in auto)
  have cut: "splitOp_cut stack ?m [0 ..< ?L] [] [] [] = (map snd ?R, map fst ?R)"
    unfolding upt using splitOp_cut_runs [of ?m stack "Suc 0" "[stack ! 0]" "[]" "[]"] L
    by (simp del: upt_Suc)
  have sp: "splitOp stack prio = Inr (map snd ?R, map fst ?R)"
    using splitOp_mark_marks [OF edge] cut by (simp add: splitOp_def Let_def)
  have "(?m ! j, stack ! j) \<in> set (drop (Suc 0) (zip ?m stack))"
    using j(1) j0 by (auto simp: in_set_conv_nth intro!: exI [of _ "j - 1"])
  then have many: "1 < length ?R"
    using j(2) by (rule runsFrom_many)
  have z: "zip ?m stack = (?m ! 0, stack ! 0) # drop (Suc 0) (zip ?m stack)"
    using L by (intro zip_head) auto
  have "mergeChunks (map snd ?R) (map fst ?R) [0 ..< length (map snd ?R)] [] = concat (map render ?R)"
    using mergeChunks_render [of 0 ?R "[]"] by simp
  also have "\<dots> = collapse (zip ?m stack)"
    by (subst (2) z, cases "?m ! 0") (simp_all add: render_runsFrom)
  finally show ?thesis
    using sp many by (simp add: nest_step_def)
qed

lemma isLeaf_not_infix: "isLeaf e \<Longrightarrow> \<not> isInfix e"
  by (auto simp: isLeaf_def isInfix_def)

lemma isLeaf_macro: "isLeaf (newMacroleaf f xs)"
  by (simp add: isLeaf_def ntype_newMacroleaf)

lemma opsF_unmarked: "opsF False rest \<Longrightarrow> dropWhile fst rest = rest"
  by (cases "(False, rest)" rule: opsF.cases) auto

lemma operators_collapse: "opsF p rest \<Longrightarrow> operators (collapse (dropWhile fst rest))"
proof (induction p rest rule: opsF.induct)
  case (1 p)
  show ?case by simp
next
  case (2 p x)
  then show ?case by simp
next
  case (3 p c oper b leaf rest)
  then have ih: "operators (collapse (dropWhile fst rest))" by simp
  show ?case
  proof (cases c)
    case True
    then show ?thesis using 3 ih by simp
  next
    case False
    show ?thesis
    proof (cases b)
      case True
      then show ?thesis using \<open>\<not> c\<close> 3(2) ih by (simp add: isLeaf_macro)
    next
      case nb: False
      then have "dropWhile fst rest = rest" using 3(2) by (simp add: opsF_unmarked)
      then show ?thesis using \<open>\<not> c\<close> nb 3(2) ih by simp
    qed
  qed
qed

lemma alternating_collapse:
  assumes "isLeaf leaf" and "opsF b rest"
  shows "alternating (collapse ((b, leaf) # rest))"
proof (cases b)
  case True
  then show ?thesis
    using operators_collapse [OF assms(2)] by (simp add: alternating_def isLeaf_macro)
next
  case False
  then have "dropWhile fst rest = rest" using assms(2) by (simp add: opsF_unmarked)
  then show ?thesis
    using operators_collapse [OF assms(2)] assms(1) False by (simp add: alternating_def)
qed

lemma not_infix_macro: "\<not> isInfix (newMacroleaf f xs)"
  by (simp add: isInfix_def ntype_newMacroleaf)

lemma filter_takeWhile_marked:
  "filter (\<lambda>(b, x). \<not> b \<and> P x) (takeWhile fst rest) = []"
  by (induction rest) auto

lemma infix_collapse:
  "filter isInfix (collapse z) = map snd (filter (\<lambda>(b, x). \<not> b \<and> isInfix x) z)"
proof (induction z rule: collapse.induct)
  case 1
  show ?case by simp
next
  case (2 x rest)
  then show ?case by simp
next
  case (3 x rest)
  have "filter (\<lambda>(b, x). \<not> b \<and> isInfix x) rest
      = filter (\<lambda>(b, x). \<not> b \<and> isInfix x) (takeWhile fst rest @ dropWhile fst rest)"
    by simp
  also have "\<dots> = filter (\<lambda>(b, x). \<not> b \<and> isInfix x) (dropWhile fst rest)"
    unfolding filter_append by (simp add: filter_takeWhile_marked)
  finally show ?case using 3 by (simp add: not_infix_macro)
qed

lemma unmarked_infix:
  "\<forall>(b, x) \<in> set z. isInfix x \<longrightarrow> b = isTop prio x
   \<Longrightarrow> map snd (filter (\<lambda>(b, x). \<not> b \<and> isInfix x) z)
       = filter (\<lambda>x. isInfix x \<and> \<not> isTop prio x) (map snd z)"
  by (induction z) auto

lemma operators_nth:
  "operators xs \<Longrightarrow>
   even (length xs) \<and> (\<forall>j<length xs. (even j \<longrightarrow> isInfix (xs ! j)) \<and> (odd j \<longrightarrow> isLeaf (xs ! j)))"
proof (induction xs rule: operators.induct)
  case 1
  show ?case by simp
next
  case (2 x)
  then show ?case by simp
next
  case (3 oper leaf rest)
  then have ih: "even (length rest)"
    "\<And>j. j < length rest \<Longrightarrow> (even j \<longrightarrow> isInfix (rest ! j)) \<and> (odd j \<longrightarrow> isLeaf (rest ! j))"
    by simp_all
  have "(even j \<longrightarrow> isInfix ((oper # leaf # rest) ! j)) \<and> (odd j \<longrightarrow> isLeaf ((oper # leaf # rest) ! j))"
    if "j < length (oper # leaf # rest)" for j
  proof (cases j)
    case 0
    then show ?thesis using 3(2) by simp
  next
    case (Suc j1)
    show ?thesis
    proof (cases j1)
      case 0
      then show ?thesis using Suc 3(2) by simp
    next
      case (Suc j2)
      then have "j2 < length rest" using that \<open>j = Suc j1\<close> by simp
      from ih(2) [OF this] show ?thesis using Suc \<open>j = Suc j1\<close> by simp
    qed
  qed
  then show ?case using ih(1) by simp
qed

lemma alternating_nth:
  assumes "alternating stack"
  shows "odd (length stack)"
    and "j < length stack \<Longrightarrow> even j \<Longrightarrow> isLeaf (stack ! j)"
    and "j < length stack \<Longrightarrow> odd j \<Longrightarrow> isInfix (stack ! j)"
proof -
  obtain leaf rest where st: "stack = leaf # rest" "isLeaf leaf" "operators rest"
    using assms by (cases stack) (auto simp: alternating_def)
  note r = operators_nth [OF st(3)]
  show "odd (length stack)" using r st(1) by simp
  show "isLeaf (stack ! j)" if "j < length stack" "even j"
  proof (cases j)
    case 0
    then show ?thesis using st by simp
  next
    case (Suc j1)
    then show ?thesis using that r st(1) by simp
  qed
  show "isInfix (stack ! j)" if "j < length stack" "odd j"
  proof (cases j)
    case 0
    then show ?thesis using that by simp
  next
    case (Suc j1)
    then show ?thesis using that r st(1) by simp
  qed
qed

lemma operators_of_nth:
  "even (length xs) \<Longrightarrow>
   (\<And>j. j < length xs \<Longrightarrow> (even j \<longrightarrow> isInfix (xs ! j)) \<and> (odd j \<longrightarrow> isLeaf (xs ! j)))
   \<Longrightarrow> operators xs"
proof (induction xs rule: operators.induct)
  case 1
  show ?case by simp
next
  case (2 x)
  then show ?case by simp
next
  case (3 oper leaf rest)
  have "isInfix oper" using 3(3) [of 0] by simp
  moreover have "isLeaf leaf" using 3(3) [of 1] by simp
  moreover have "operators rest"
  proof (rule 3(1))
    show "even (length rest)" using 3(2) by simp
  next
    fix j assume "j < length rest"
    then show "(even j \<longrightarrow> isInfix (rest ! j)) \<and> (odd j \<longrightarrow> isLeaf (rest ! j))"
      using 3(3) [of "Suc (Suc j)"] by simp
  qed
  ultimately show ?case by simp
qed

lemma alternating_iff:
  "alternating stack =
     (odd (length stack)
      \<and> (\<forall>j<length stack. if even j then isLeaf (stack ! j) else isInfix (stack ! j)))"
proof
  assume "alternating stack"
  then show "odd (length stack)
      \<and> (\<forall>j<length stack. if even j then isLeaf (stack ! j) else isInfix (stack ! j))"
    using alternating_nth by simp
next
  assume a: "odd (length stack)
      \<and> (\<forall>j<length stack. if even j then isLeaf (stack ! j) else isInfix (stack ! j))"
  then obtain leaf rest where st: "stack = leaf # rest" by (cases stack) auto
  have "isLeaf leaf" using a st by auto
  moreover have "operators rest"
  proof (rule operators_of_nth)
    show "even (length rest)" using a st by simp
  next
    fix j assume j: "j < length rest"
    then have "Suc j < length stack" using st by simp
    with a have "if even (Suc j) then isLeaf (stack ! Suc j) else isInfix (stack ! Suc j)"
      by blast
    then show "(even j \<longrightarrow> isInfix (rest ! j)) \<and> (odd j \<longrightarrow> isLeaf (rest ! j))"
      using st by (auto split: if_splits)
  qed
  ultimately show "alternating stack" by (simp add: alternating_def st)
qed

lemma isTop_infix: "isTop prio e \<Longrightarrow> isInfix e"
  by (simp add: isTop_def isInfix_def)

lemma marks_nth:
  "j < length stack \<Longrightarrow>
   marks prio stack ! j =
     (isTop prio (stack ! j)
      \<or> (0 < j \<and> isTop prio (stack ! (j - 1)))
      \<or> (j + 1 < length stack \<and> isTop prio (stack ! (j + 1))))"
  by (simp add: marks_def)

lemma marks_operator:
  assumes "alternating stack" and "j < length stack" and "odd j"
  shows "marks prio stack ! j = isTop prio (stack ! j)"
    and "marks prio stack ! j \<longrightarrow> marks prio stack ! (j - 1) \<and> marks prio stack ! (j + 1)"
    and "j + 1 < length stack"
proof -
  have odd: "odd (length stack)" by (rule alternating_nth(1) [OF assms(1)])
  show j1: "j + 1 < length stack"
    using assms(2,3) odd by (metis Suc_eq_plus1 Suc_lessI even_Suc)
  have j0: "0 < j" using assms(3) by (cases j) auto
  have "isLeaf (stack ! (j - 1))"
    using alternating_nth(2) [OF assms(1), of "j - 1"] assms(2,3) j0 by simp
  then have a: "\<not> isTop prio (stack ! (j - 1))"
    using isLeaf_not_infix isTop_infix by blast
  have "isLeaf (stack ! (j + 1))"
    using alternating_nth(2) [OF assms(1), of "j + 1"] j1 assms(3) by simp
  then have b: "\<not> isTop prio (stack ! (j + 1))"
    using isLeaf_not_infix isTop_infix by blast
  show "marks prio stack ! j = isTop prio (stack ! j)"
    using a b assms(2) by (simp add: marks_nth)
  show "marks prio stack ! j \<longrightarrow> marks prio stack ! (j - 1) \<and> marks prio stack ! (j + 1)"
    using a b assms(2) j0 j1 by (simp add: marks_nth)
qed

lemma marks_opsF:
  assumes alt: "alternating stack"
  shows "even k \<Longrightarrow> k < length stack \<Longrightarrow>
         opsF (marks prio stack ! k) (drop (Suc k) (zip (marks prio stack) stack))"
proof (induction "length stack - k" arbitrary: k rule: less_induct)
  case less
  let ?m = "marks prio stack"
  let ?z = "zip ?m stack"
  show ?case
  proof (cases "Suc k < length stack")
    case False
    then show ?thesis by simp
  next
    case True
    then have o: "odd (Suc k)" using less.prems by simp
    note op2 = marks_operator(2) [OF alt True o, of prio]
    have k2: "Suc (Suc k) < length stack" using marks_operator(3) [OF alt True o] by simp
    have d: "drop (Suc k) ?z = (?m ! Suc k, stack ! Suc k) # (?m ! Suc (Suc k), stack ! Suc (Suc k))
        # drop (Suc (Suc (Suc k))) ?z"
      using True k2 by (simp add: Cons_nth_drop_Suc [symmetric])
    have "isInfix (stack ! Suc k)" by (rule alternating_nth(3) [OF alt True o])
    moreover have "isLeaf (stack ! Suc (Suc k))"
      using alternating_nth(2) [OF alt k2] less.prems by simp
    moreover have "?m ! Suc k \<longrightarrow> ?m ! k \<and> ?m ! Suc (Suc k)"
      using op2 by simp
    moreover have "opsF (?m ! Suc (Suc k)) (drop (Suc (Suc (Suc k))) ?z)"
      using less.hyps [of "Suc (Suc k)"] less.prems k2 by simp
    ultimately show ?thesis unfolding d by simp
  qed
qed

lemma nest_step_alternating:
  assumes alt: "alternating stack"
    and top: "t \<in> set stack" "isTop prio t"
    and low: "u \<in> set stack" "isInfix u" "\<not> isTop prio u"
  shows "\<exists>st1. nest_step stack prio = Inr st1 \<and> alternating st1
           \<and> filter isInfix st1 = filter (\<lambda>x. isInfix x \<and> \<not> isTop prio x) stack"
proof -
  let ?m = "marks prio stack"
  let ?z = "zip ?m stack"
  have oddI: "odd i" if "i < length stack" "isInfix (stack ! i)" for i
    using alternating_nth(2) [OF alt that(1)] that(2) isLeaf_not_infix by blast
  have edge: "\<forall>i<length stack. isTop prio (stack ! i) \<longrightarrow> 0 < i \<and> i + 1 < length stack"
  proof (intro allI impI)
    fix i assume i: "i < length stack" "isTop prio (stack ! i)"
    then have o: "odd i" using oddI isTop_infix by blast
    then have "0 < i" by (cases i) auto
    with marks_operator(3) [OF alt i(1) o] show "0 < i \<and> i + 1 < length stack" by simp
  qed
  obtain it where it: "it < length stack" "stack ! it = t"
    using top(1) by (auto simp: in_set_conv_nth)
  obtain iu where iu: "iu < length stack" "stack ! iu = u"
    using low(1) by (auto simp: in_set_conv_nth)
  have mt: "?m ! it" 
    using marks_operator(1) [OF alt it(1), of prio] oddI [OF it(1)] it(2) top(2) isTop_infix by simp
  have mu: "\<not> ?m ! iu"
    using marks_operator(1) [OF alt iu(1), of prio] oddI [OF iu(1)] iu(2) low(2,3) by simp
  obtain j where j: "j < length stack" "?m ! j \<noteq> ?m ! 0"
    using mt mu it(1) iu(1) by (cases "?m ! 0") auto
  have step: "nest_step stack prio = Inr (collapse ?z)"
    by (rule nest_step_collapse [OF edge j])
  have L: "0 < length stack" using j(1) by (cases stack) simp_all
  have z: "?z = (?m ! 0, stack ! 0) # drop (Suc 0) ?z"
    using L by (intro zip_head) auto
  have "alternating (collapse ((?m ! 0, stack ! 0) # drop (Suc 0) ?z))"
    using alternating_nth(2) [OF alt L] marks_opsF [OF alt _ L, of prio]
    by (intro alternating_collapse) simp_all
  then have a: "alternating (collapse ?z)" using z by simp
  have "\<forall>(b, x) \<in> set ?z. isInfix x \<longrightarrow> b = isTop prio x"
  proof (clarify)
    fix b x assume bx: "(b, x) \<in> set ?z" "isInfix x"
    then obtain i where i: "i < length stack" "?m ! i = b" "stack ! i = x"
      by (auto simp: in_set_zip)
    from marks_operator(1) [OF alt i(1), of prio] oddI [OF i(1)] i bx(2)
    show "b = isTop prio x" by simp
  qed
  then have "map snd (filter (\<lambda>(b, x). \<not> b \<and> isInfix x) ?z)
       = filter (\<lambda>x. isInfix x \<and> \<not> isTop prio x) (map snd ?z)"
    by (rule unmarked_infix)
  then have "filter isInfix (collapse ?z) = filter (\<lambda>x. isInfix x \<and> \<not> isTop prio x) stack"
    by (simp add: infix_collapse)
  with step a show ?thesis by blast
qed

lemma priority_bounds: "0 \<le> priority e \<and> priority e \<le> 3"
  by (simp add: priority_def INFIX_OPS_def)

lemma getPriorityRange_loop_facts:
  "getPriorityRange_loop st (mn0, mx0) = (mn, mx) \<Longrightarrow>
     mn \<le> mn0 \<and> mx0 \<le> mx
     \<and> (\<forall>e\<in>set st. isInfix e \<longrightarrow> mn \<le> priority e \<and> priority e \<le> mx)
     \<and> (mx = mx0 \<or> (\<exists>e\<in>set st. isInfix e \<and> priority e = mx))
     \<and> (mn = mn0 \<or> (\<exists>e\<in>set st. isInfix e \<and> priority e = mn))"
proof (induction st arbitrary: mn0 mx0)
  case Nil
  then show ?case by simp
next
  case (Cons e st)
  show ?case
  proof (cases "isInfix e")
    case False
    then have "getPriorityRange_loop st (mn0, mx0) = (mn, mx)"
      using Cons.prems by (simp add: isInfix_def)
    from Cons.IH [OF this] False show ?thesis by auto
  next
    case True
    define mx1 where "mx1 = (if priority e > mx0 then priority e else mx0)"
    define mn1 where "mn1 = (if priority e < mn0 then priority e else mn0)"
    have "getPriorityRange_loop st (mn1, mx1) = (mn, mx)"
      using Cons.prems True by (simp add: isInfix_def mx1_def mn1_def Let_def)
    from Cons.IH [OF this] have ih: "mn \<le> mn1" "mx1 \<le> mx"
      "\<forall>e\<in>set st. isInfix e \<longrightarrow> mn \<le> priority e \<and> priority e \<le> mx"
      "mx = mx1 \<or> (\<exists>e\<in>set st. isInfix e \<and> priority e = mx)"
      "mn = mn1 \<or> (\<exists>e\<in>set st. isInfix e \<and> priority e = mn)"
      by simp_all
    have 1: "mn \<le> mn0 \<and> mx0 \<le> mx \<and> mn \<le> priority e \<and> priority e \<le> mx"
      using ih(1,2) by (auto simp: mx1_def mn1_def split: if_splits)
    have 2: "mx = mx0 \<or> (\<exists>e\<in>set (e # st). isInfix e \<and> priority e = mx)"
      using ih(4) True by (auto simp: mx1_def split: if_splits)
    have 3: "mn = mn0 \<or> (\<exists>e\<in>set (e # st). isInfix e \<and> priority e = mn)"
      using ih(5) True by (auto simp: mn1_def split: if_splits)
    from 1 2 3 ih(3) show ?thesis by simp
  qed
qed

lemma getPriorityRange_facts:
  assumes "getPriorityRange st = (mn, mx)" and "u \<in> set st" "isInfix u"
  shows "\<forall>e\<in>set st. isInfix e \<longrightarrow> mn \<le> priority e \<and> priority e \<le> mx"
    and "\<exists>e\<in>set st. isTop mx e"
    and "mn \<noteq> mx \<Longrightarrow> \<exists>e\<in>set st. isInfix e \<and> \<not> isTop mx e"
proof -
  note f = getPriorityRange_loop_facts [OF assms(1) [unfolded getPriorityRange_def]]
  show a: "\<forall>e\<in>set st. isInfix e \<longrightarrow> mn \<le> priority e \<and> priority e \<le> mx"
    using f by simp
  have "0 \<le> mx" "mn \<le> 3"
    using a assms(2,3) priority_bounds [of u] by auto
  then have "(\<exists>e\<in>set st. isInfix e \<and> priority e = mx)" "(\<exists>e\<in>set st. isInfix e \<and> priority e = mn)"
    using f by auto
  then show "\<exists>e\<in>set st. isTop mx e" "mn \<noteq> mx \<Longrightarrow> \<exists>e\<in>set st. isInfix e \<and> \<not> isTop mx e"
    by (auto simp: isTop_def isInfix_def)
qed

lemma length_filter_strict:
  "x \<in> set xs \<Longrightarrow> P x \<Longrightarrow> Q x
   \<Longrightarrow> length (filter (\<lambda>x. P x \<and> \<not> Q x) xs) < length (filter P xs)"
proof (induction xs)
  case Nil
  then show ?case by simp
next
  case (Cons y ys)
  have le: "length (filter (\<lambda>x. P x \<and> \<not> Q x) ys) \<le> length (filter P ys)"
    by (induction ys) auto
  show ?case
  proof (cases "x = y")
    case True
    then show ?thesis using Cons.prems le by simp
  next
    case False
    then have "x \<in> set ys" using Cons.prems by simp
    from Cons.IH [OF this Cons.prems(2,3)] show ?thesis by simp
  qed
qed

lemma nest_loop_terminates:
  assumes "alternating st" and "u \<in> set st" "isInfix u" and "getPriorityRange st = (mn, mx)"
  shows "\<exists>st'. nest_loop st mn mx = Some (Inr st') \<and> alternating st' \<and> samePriority st'"
  using assms
proof (induction "length (filter isInfix st)" arbitrary: st u mn mx rule: less_induct)
  case less
  note facts = getPriorityRange_facts [OF less.prems(4) less.prems(2,3)]
  show ?case
  proof (cases "mx = mn")
    case True
    then have "nest_loop st mn mx = Some (Inr st)"
      by (subst nest_loop.simps) simp
    moreover have "samePriority st"
      unfolding samePriority_def using facts(1) True by (metis order_antisym)
    ultimately show ?thesis using less.prems(1) by simp
  next
    case False
    obtain t where t: "t \<in> set st" "isTop mx t" using facts(2) by blast
    obtain v where v: "v \<in> set st" "isInfix v" "\<not> isTop mx v" using facts(3) False by blast
    from nest_step_alternating [OF less.prems(1) t v]
    obtain st1 where st1: "nest_step st mx = Inr st1" "alternating st1"
        "filter isInfix st1 = filter (\<lambda>x. isInfix x \<and> \<not> isTop mx x) st"
      by blast
    obtain mn1 mx1 where r1: "getPriorityRange st1 = (mn1, mx1)"
      by (cases "getPriorityRange st1")
    have "v \<in> set (filter isInfix st1)" using v st1(3) by simp
    then have v1: "v \<in> set st1" by simp
    have "length (filter isInfix st1) < length (filter isInfix st)"
      unfolding st1(3) using t isTop_infix [OF t(2)] by (intro length_filter_strict [of t]) simp_all
    from less.hyps [OF this st1(2) v1 v(2) r1]
    obtain st' where "nest_loop st1 mn1 mx1 = Some (Inr st')" "alternating st'" "samePriority st'"
      by blast
    moreover have "nest_loop st mn mx = nest_loop st1 mn1 mx1"
      using False st1(1) r1 by (subst nest_loop.simps) simp
    ultimately show ?thesis by simp
  qed
qed

lemma nest_step_priorities:
  assumes "alternating st" and "u \<in> set st" "isInfix u" and "getPriorityRange st = (mn, mx)"
    and "mx \<noteq> mn"
  shows "\<exists>st1. nest_step st mx = Inr st1 \<and> alternating st1
           \<and> infixPriorities st1 = infixPriorities st - {mx} \<and> mx \<in> infixPriorities st
           \<and> card (infixPriorities st1) < card (infixPriorities st)"
proof -
  note facts = getPriorityRange_facts [OF assms(4) assms(2,3)]
  obtain t where t: "t \<in> set st" "isTop mx t" using facts(2) by blast
  obtain v where v: "v \<in> set st" "isInfix v" "\<not> isTop mx v" using facts(3) assms(5) by blast
  from nest_step_alternating [OF assms(1) t v]
  obtain st1 where st1: "nest_step st mx = Inr st1" "alternating st1"
      "filter isInfix st1 = filter (\<lambda>x. isInfix x \<and> \<not> isTop mx x) st"
    by blast
  have p: "infixPriorities st1 = infixPriorities st - {mx}"
    unfolding infixPriorities_def st1(3) by (auto simp: isTop_def isInfix_def)
  have m: "mx \<in> infixPriorities st"
    unfolding infixPriorities_def using t by (auto simp: isTop_def isInfix_def intro!: image_eqI [of _ _ t])
  have "finite (infixPriorities st)" by (simp add: infixPriorities_def)
  then have "card (infixPriorities st - {mx}) < card (infixPriorities st)"
    using m by (rule card_Diff1_less)
  with st1(1,2) p m show ?thesis by simp
qed

lemma checkPattern_operators:
  "operators xs \<Longrightarrow> odd k \<Longrightarrow>
   checkPattern (enumerate k xs) n = Inr (n + length (filter isInfix xs))"
proof (induction xs arbitrary: k n rule: operators.induct)
  case 1
  show ?case by simp
next
  case (2 x)
  then show ?case by simp
next
  case (3 oper leaf rest)
  have l: "isLeaf leaf" "isInfix oper" "operators rest" using 3(2) by simp_all
  have "checkPattern (enumerate (Suc (Suc k)) rest) (n + 1) = Inr (n + 1 + length (filter isInfix rest))"
    using 3(1) [OF l(3), of "Suc (Suc k)" "n + 1"] 3(3) by simp
  moreover have "k mod 2 \<noteq> 0" "Suc k mod 2 = 0"
    using 3(3) by presburger+
  moreover have "ntype oper = ''INFIX''" using l(2) by (simp add: isInfix_def)
  moreover have "ntype leaf \<in> set [''NUMBER'', ''VAR'', ''CONSTANT'', ''MACRO'']"
    using l(1) by (simp add: isLeaf_def)
  moreover have "filter isInfix (oper # leaf # rest) = oper # filter isInfix rest"
    using l(2) isLeaf_not_infix [OF l(1)] by simp
  ultimately show ?case
    by (simp del: set_simps)
qed

lemma checkPattern_alternating:
  assumes "alternating st"
  shows "checkPattern (enumerate 0 st) 0 = Inr (length (filter isInfix st))"
proof -
  obtain leaf rest where st: "st = leaf # rest" "isLeaf leaf" "operators rest"
    using assms by (cases st) (auto simp: alternating_def)
  show ?thesis
    using checkPattern_operators [OF st(3), of "Suc 0" 0] st(2) isLeaf_not_infix [OF st(2)]
    by (simp add: st(1) isLeaf_def)
qed

lemma forEach_total:
  "(\<And>x. x \<in> set xs \<Longrightarrow> \<exists>y. f x = Some (Inr y) \<and> R x y)
   \<Longrightarrow> \<exists>ys. forEach f xs = Some (Inr ys) \<and> list_all2 R xs ys"
proof (induction xs)
  case Nil
  show ?case by simp
next
  case (Cons x xs)
  obtain y where y: "f x = Some (Inr y)" "R x y" using Cons.prems [of x] by auto
  obtain ys where ys: "forEach f xs = Some (Inr ys)" "list_all2 R xs ys"
    using Cons.IH Cons.prems by auto
  show ?case using y ys by simp
qed

lemma operators_sameShape:
  "operators xs \<Longrightarrow> list_all2 sameShape xs ys \<Longrightarrow> operators ys"
proof (induction xs arbitrary: ys rule: operators.induct)
  case 1
  then show ?case by simp
next
  case (2 x)
  then show ?case by simp
next
  case (3 oper leaf rest)
  then obtain o' l' rest' where ys: "ys = o' # l' # rest'" "sameShape oper o'" "sameShape leaf l'"
      "list_all2 sameShape rest rest'"
    by (auto simp: list_all2_Cons1)
  then show ?case
    using 3 by (auto simp: sameShape_def isInfix_def isLeaf_def)
qed

lemma alternating_sameShape:
  assumes "alternating xs" and "list_all2 sameShape xs ys"
  shows "alternating ys \<and> filter isInfix ys = filter isInfix xs"
proof -
  obtain leaf rest where xs: "xs = leaf # rest" "isLeaf leaf" "operators rest"
    using assms(1) by (cases xs) (auto simp: alternating_def)
  then obtain l' rest' where ys: "ys = l' # rest'" "sameShape leaf l'" "list_all2 sameShape rest rest'"
    using assms(2) by (auto simp: list_all2_Cons1)
  have "alternating ys"
    using operators_sameShape [OF xs(3) ys(3)] xs(2) ys(1,2)
    by (simp add: alternating_def sameShape_def isLeaf_def)
  moreover have "filter isInfix ys = filter isInfix xs"
    using assms(2) by (induction rule: list_all2_induct) (auto simp: sameShape_def isInfix_def)
  ultimately show ?thesis by simp
qed

lemma samePriority_few:
  "length (filter isInfix st) < 2 \<Longrightarrow> samePriority st"
proof -
  assume a: "length (filter isInfix st) < 2"
  have "e = f" if "e \<in> set (filter isInfix st)" "f \<in> set (filter isInfix st)" for e f
  proof (cases "filter isInfix st")
    case Nil
    then show ?thesis using that by simp
  next
    case (Cons x xs)
    then have "xs = []" using a by simp
    then show ?thesis using that Cons by simp
  qed
  then show ?thesis by (auto simp: samePriority_def)
qed

lemma nest_total:
  "everyLevel alternating stack
   \<Longrightarrow> \<exists>st'. nest stack = Some (Inr st') \<and> alternating st' \<and> samePriority st'"
proof (induction stack rule: nest.induct)
  case (1 stack)
  have alt: "alternating stack"
    using 1(2) by (subst (asm) everyLevel.simps) simp
  have args: "everyLevel alternating a" if "Macroleaf f as \<in> set stack" "a \<in> set as" for f as a
    using 1(2) that by (subst (asm) everyLevel.simps) (auto split: node.splits)
  note cp = checkPattern_alternating [OF alt]
  let ?g = "\<lambda>element. case element of
                   Macroleaf f as \<Rightarrow>
                     (case forEach nest as of
                        None \<Rightarrow> None
                      | Some (Inl e) \<Rightarrow> Some (Inl e)
                      | Some (Inr as') \<Rightarrow> Some (Inr (Macroleaf f as')))
                 | Tok t \<Rightarrow> Some (Inr element)"
  have "\<exists>y. ?g x = Some (Inr y) \<and> sameShape x y" if x: "x \<in> set stack" for x
  proof (cases x)
    case (Tok t)
    then show ?thesis by (simp add: sameShape_def)
  next
    case (Macroleaf f as)
    have "\<exists>y. nest a = Some (Inr y) \<and> True" if "a \<in> set as" for a
      using 1(1) [OF cp x Macroleaf that] args [of f as a] x Macroleaf that by auto
    from forEach_total [of as nest "\<lambda>x y. True", OF this]
    obtain as' where "forEach nest as = Some (Inr as')" by auto
    then show ?thesis using Macroleaf by (simp add: sameShape_def ntype_def isInfix_def)
  qed
  from forEach_total [of stack ?g sameShape, OF this]
  obtain stack1 where s1: "forEach ?g stack = Some (Inr stack1)" "list_all2 sameShape stack stack1"
    by auto
  note shape = alternating_sameShape [OF alt s1(2)]
  show ?case
  proof (cases "2 \<le> length (filter isInfix stack)")
    case False
    then have "nest stack = Some (Inr stack1)"
      using cp s1(1) by (subst nest.simps) simp
    moreover have "samePriority stack1"
      using False shape by (intro samePriority_few) simp
    ultimately show ?thesis using shape by simp
  next
    case True
    obtain mn mx where r: "getPriorityRange stack1 = (mn, mx)"
      by (cases "getPriorityRange stack1")
    have "filter isInfix stack1 \<noteq> []" using True shape by auto
    then obtain u where u: "u \<in> set (filter isInfix stack1)"
      by (cases "filter isInfix stack1") auto
    then have u1: "u \<in> set stack1" "isInfix u" by simp_all
    have "nest stack = nest_loop stack1 mn mx"
      using cp s1(1) True r by (subst nest.simps) simp
    with nest_loop_terminates [OF _ u1 r] shape show ?thesis by simp
  qed
qed

text \<open>
  Claim C3.  On a stack that is alternating, as every stack inside its \<open>Macroleaf\<close> nodes
  is, \<open>nest\<close> returns a stack, alternating again, whose infix nodes all have the same
  priority.  Every iteration of its loop, entered on an alternating stack whose infix
  nodes have two priorities at least, returns an alternating stack with an infix node
  and with fewer distinct priorities, on which the loop goes on.  A stack is alternating
  exactly when it has an odd number of nodes, leaves at the even indices and infix nodes at
  the odd ones (\<open>alternating_iff\<close>).  The priority of an infix
  node, the \<open>Macroleaf\<close> built from a run and the nesting of the arguments of a
  \<open>Macroleaf\<close> are not among the sources and are modelled as stated where they are defined.
\<close>

theorem nest_terminates_with_one_priority:
  "(everyLevel alternating stack \<longrightarrow>
      (\<exists>st'. nest stack = Some (Inr st') \<and> alternating st' \<and> samePriority st'))
   \<and> (alternating st \<and> u \<in> set st \<and> isInfix u \<and> getPriorityRange st = (mn, mx) \<and> mx \<noteq> mn \<longrightarrow>
        (\<exists>st1. nest_step st mx = Inr st1 \<and> alternating st1 \<and> (\<exists>v\<in>set st1. isInfix v)
           \<and> card (infixPriorities st1) < card (infixPriorities st)
           \<and> nest_loop st mn mx
               = (case getPriorityRange st1 of (mn1, mx1) \<Rightarrow> nest_loop st1 mn1 mx1)))"
proof (intro conjI impI)
  assume "everyLevel alternating stack"
  then show "\<exists>st'. nest stack = Some (Inr st') \<and> alternating st' \<and> samePriority st'"
    by (rule nest_total)
next
  assume a: "alternating st \<and> u \<in> set st \<and> isInfix u \<and> getPriorityRange st = (mn, mx) \<and> mx \<noteq> mn"
  then have alt: "alternating st" and u: "u \<in> set st" "isInfix u"
    and r: "getPriorityRange st = (mn, mx)" and ne: "mx \<noteq> mn"
    by simp_all
  from nest_step_priorities [OF alt u r ne]
  obtain st1 where st1: "nest_step st mx = Inr st1" "alternating st1"
      "infixPriorities st1 = infixPriorities st - {mx}"
      "card (infixPriorities st1) < card (infixPriorities st)"
    by blast
  obtain v where v: "v \<in> set st" "isInfix v" "\<not> isTop mx v"
    using getPriorityRange_facts(3) [OF r u] ne by blast
  then have "priority v \<in> infixPriorities st - {mx}"
    by (auto simp: infixPriorities_def isTop_def isInfix_def)
  then have "priority v \<in> infixPriorities st1" using st1(3) by simp
  then have ex: "\<exists>v\<in>set st1. isInfix v"
    by (auto simp: infixPriorities_def)
  have "nest_loop st mn mx = (case getPriorityRange st1 of (mn1, mx1) \<Rightarrow> nest_loop st1 mn1 mx1)"
    using ne st1(1) by (subst nest_loop.simps) simp
  with st1(1,2,4) ex
  show "\<exists>st1. nest_step st mx = Inr st1 \<and> alternating st1 \<and> (\<exists>v\<in>set st1. isInfix v)
           \<and> card (infixPriorities st1) < card (infixPriorities st)
           \<and> nest_loop st mn mx
               = (case getPriorityRange st1 of (mn1, mx1) \<Rightarrow> nest_loop st1 mn1 mx1)"
    by blast
qed

lemmas nest_eval =
  nest.simps nest_loop.simps nest_step_def splitOp_def getPriorityRange_def priority_def
  INFIX_OPS_def ntype_def nname_def newMacroleaf_def enumerate_eq_zip upt_conv_Cons Let_def
  alternating_def isLeaf_def isInfix_def samePriority_def infixPriorities_def everyLevel.simps

theorem nest_terminates_with_one_priority_witness:
  "everyLevel alternating
     [Tok (tk ''VAR'' ''a''), Tok (tk ''INFIX'' ''*''), Tok (tk ''VAR'' ''b''),
      Tok (tk ''INFIX'' ''+''), Tok (tk ''VAR'' ''c'')]
   \<and> alternating
     [Tok (tk ''VAR'' ''a''), Tok (tk ''INFIX'' ''*''), Tok (tk ''VAR'' ''b''),
      Tok (tk ''INFIX'' ''+''), Tok (tk ''VAR'' ''c'')]
   \<and> Tok (tk ''INFIX'' ''*'') \<in> set
     [Tok (tk ''VAR'' ''a''), Tok (tk ''INFIX'' ''*''), Tok (tk ''VAR'' ''b''),
      Tok (tk ''INFIX'' ''+''), Tok (tk ''VAR'' ''c'')]
   \<and> isInfix (Tok (tk ''INFIX'' ''*''))
   \<and> (2::int) \<noteq> 1
   \<and> nest [Tok (tk ''VAR'' ''a''), Tok (tk ''INFIX'' ''*''), Tok (tk ''VAR'' ''b''),
            Tok (tk ''INFIX'' ''+''), Tok (tk ''VAR'' ''c'')]
      = Some (Inr [Macroleaf ''id'' [[Tok (tk ''VAR'' ''a''), Tok (tk ''INFIX'' ''*''), Tok (tk ''VAR'' ''b'')]],
                   Tok (tk ''INFIX'' ''+''), Tok (tk ''VAR'' ''c'')])
   \<and> samePriority [Macroleaf ''id'' [[Tok (tk ''VAR'' ''a''), Tok (tk ''INFIX'' ''*''), Tok (tk ''VAR'' ''b'')]],
                   Tok (tk ''INFIX'' ''+''), Tok (tk ''VAR'' ''c'')]
   \<and> getPriorityRange [Tok (tk ''VAR'' ''a''), Tok (tk ''INFIX'' ''*''), Tok (tk ''VAR'' ''b''),
            Tok (tk ''INFIX'' ''+''), Tok (tk ''VAR'' ''c'')] = (1, 2)
   \<and> nest_step [Tok (tk ''VAR'' ''a''), Tok (tk ''INFIX'' ''*''), Tok (tk ''VAR'' ''b''),
            Tok (tk ''INFIX'' ''+''), Tok (tk ''VAR'' ''c'')] 2
      = Inr [Macroleaf ''id'' [[Tok (tk ''VAR'' ''a''), Tok (tk ''INFIX'' ''*''), Tok (tk ''VAR'' ''b'')]],
                   Tok (tk ''INFIX'' ''+''), Tok (tk ''VAR'' ''c'')]
   \<and> card (infixPriorities [Macroleaf ''id'' [[Tok (tk ''VAR'' ''a''), Tok (tk ''INFIX'' ''*''), Tok (tk ''VAR'' ''b'')]],
                   Tok (tk ''INFIX'' ''+''), Tok (tk ''VAR'' ''c'')]) = 1
   \<and> card (infixPriorities [Tok (tk ''VAR'' ''a''), Tok (tk ''INFIX'' ''*''), Tok (tk ''VAR'' ''b''),
            Tok (tk ''INFIX'' ''+''), Tok (tk ''VAR'' ''c'')]) = 2"
  using nest_terminates_with_one_priority
    [of "[Tok (tk ''VAR'' ''a''), Tok (tk ''INFIX'' ''*''), Tok (tk ''VAR'' ''b''),
          Tok (tk ''INFIX'' ''+''), Tok (tk ''VAR'' ''c'')]"
        "[Tok (tk ''VAR'' ''a''), Tok (tk ''INFIX'' ''*''), Tok (tk ''VAR'' ''b''),
          Tok (tk ''INFIX'' ''+''), Tok (tk ''VAR'' ''c'')]"
        "Tok (tk ''INFIX'' ''*'')" 1 2]
  by (simp add: nest_eval)

end
